theory Spec2Isabelle
  imports Main "HOL-Library.Log_Nat" "HOL-Library.Monad_Syntax" "HOL-Library.Sublist"
begin

section \<open>Characters and strings of the script\<close>

text \<open>
  A JavaScript string is modelled as a \<^typ>\<open>string\<close>, one \<^typ>\<open>char\<close> per code unit. The
  character classes and the case mappings below are those of the ASCII range, which is the
  range every regular expression of \<^verbatim>\<open>script.js\<close> is written for; a character outside
  ASCII is a non-letter, non-digit, non-space character without case in this model.
\<close>

definition upper_letters :: string where
  "upper_letters = ''ABCDEFGHIJKLMNOPQRSTUVWXYZ''"

definition lower_letters :: string where
  "lower_letters = ''abcdefghijklmnopqrstuvwxyz''"

definition is_upper :: "char \<Rightarrow> bool" where
  "is_upper c = (c \<in> set upper_letters)"

definition is_lower :: "char \<Rightarrow> bool" where
  "is_lower c = (c \<in> set lower_letters)"

text \<open>The class \<^verbatim>\<open>\d\<close>.\<close>

definition is_digit :: "char \<Rightarrow> bool" where
  "is_digit c = (c \<in> set ''0123456789'')"

text \<open>
  The class \<^verbatim>\<open>\s\<close> and the characters removed by \<^verbatim>\<open>trim()\<close>, in ASCII: tab, line feed,
  vertical tab, form feed, carriage return and space.
\<close>

definition is_space :: "char \<Rightarrow> bool" where
  "is_space c = (c \<in> set [CHR 0x09, CHR 0x0A, CHR 0x0B, CHR 0x0C, CHR 0x0D, CHR 0x20])"

definition char_lower :: "char \<Rightarrow> char" where
  "char_lower c = (case map_of (zip upper_letters lower_letters) c of Some l \<Rightarrow> l | None \<Rightarrow> c)"

definition char_upper :: "char \<Rightarrow> char" where
  "char_upper c = (case map_of (zip lower_letters upper_letters) c of Some u \<Rightarrow> u | None \<Rightarrow> c)"

text \<open>\<^verbatim>\<open>String.prototype.toLowerCase\<close> and \<^verbatim>\<open>toUpperCase\<close>.\<close>

definition toLowerCase :: "string \<Rightarrow> string" where
  "toLowerCase s = map char_lower s"

definition toUpperCase :: "string \<Rightarrow> string" where
  "toUpperCase s = map char_upper s"

text \<open>\<^verbatim>\<open>String.prototype.trim\<close>.\<close>

definition trim :: "string \<Rightarrow> string" where
  "trim s = rev (dropWhile is_space (rev (dropWhile is_space s)))"

text \<open>
  \<^verbatim>\<open>s.split(/\s+/).filter(Boolean)\<close>: the maximal runs of non-space characters, in order.
  The first argument is the run being read.
\<close>

fun split_ws :: "string \<Rightarrow> string \<Rightarrow> string list" where
  "split_ws acc [] = (if acc = [] then [] else [rev acc])"
| "split_ws acc (c # cs) =
     (if is_space c then (if acc = [] then split_ws [] cs else rev acc # split_ws [] cs)
      else split_ws (c # acc) cs)"

definition tokens :: "string \<Rightarrow> string list" where
  "tokens s = split_ws [] s"

section \<open>Rule engine: the keyword matcher\<close>

text \<open>The class \<^verbatim>\<open>[A-Za-z0-9&._]\<close> and its complement \<^verbatim>\<open>delim = '[^A-Za-z0-9&._]'\<close>.\<close>

definition is_word_char :: "char \<Rightarrow> bool" where
  "is_word_char c = (is_upper c \<or> is_lower c \<or> is_digit c \<or> c \<in> set ''&._'')"

definition delim :: "char \<Rightarrow> bool" where
  "delim c = (\<not> is_word_char c)"

text \<open>Two characters are equal under the flag \<^verbatim>\<open>i\<close> when their upper-case forms agree.\<close>

definition ci_eq :: "char \<Rightarrow> char \<Rightarrow> bool" where
  "ci_eq a b = (char_upper a = char_upper b)"

text \<open>
  The tail of the regular expression \<^verbatim>\<open>safe(?:delim|$)\<close> read at the head of the text: the
  escaped token, character by character and ignoring case, then one delimiter or the end.
\<close>

fun tok_then_edge :: "string \<Rightarrow> string \<Rightarrow> bool" where
  "tok_then_edge [] [] = True"
| "tok_then_edge [] (c # cs) = delim c"
| "tok_then_edge (t # ts) [] = False"
| "tok_then_edge (t # ts) (c # cs) = (ci_eq t c \<and> tok_then_edge ts cs)"

text \<open>
  The alternative \<^verbatim>\<open>delim\<close> of the head \<^verbatim>\<open>(?:^|delim)\<close>, tried at every index of the text
  from left to right.
\<close>

fun re_search :: "string \<Rightarrow> string \<Rightarrow> bool" where
  "re_search tok [] = False"
| "re_search tok (c # cs) = ((delim c \<and> tok_then_edge tok cs) \<or> re_search tok cs)"

text \<open>
  \<^verbatim>\<open>re.test(text)\<close> for \<^verbatim>\<open>re = new RegExp(`(?:^|${delim})${safe}(?:${delim}|$)`, 'i')\<close>: the
  alternative \<^verbatim>\<open>^\<close> succeeds at index 0 only.
\<close>

definition re_test :: "string \<Rightarrow> string \<Rightarrow> bool" where
  "re_test tok text = (tok_then_edge tok text \<or> re_search tok text)"

definition matchesKeyword :: "string \<Rightarrow> string \<Rightarrow> bool" where
  "matchesKeyword descLower keywordLower =
     (if keywordLower = [] then False
      else let text = toLowerCase descLower;
               toks = tokens (toLowerCase keywordLower)
           in if toks = [] then False
              else list_all (\<lambda>tok. re_test tok text) toks)"

section \<open>Numbers\<close>

text \<open>
  A JavaScript Number is a double: a finite value, one of the two infinities, or NaN. A
  finite double is modelled by the rational it denotes (the two zeros are one value
  \<open>Num 0\<close>; no function below tells them apart).
\<close>

datatype jsnum = Num rat | PosInfinity | NegInfinity | NaN

definition pow2 :: "int \<Rightarrow> rat" where
  "pow2 e = (if 0 \<le> e then 2 ^ nat e else 1 / 2 ^ nat (- e))"

text \<open>The exponent of a positive rational: the \<open>e\<close> with \<open>2^e \<le> x < 2^(e+1)\<close>.\<close>

definition ilog2 :: "rat \<Rightarrow> int" where
  "ilog2 x = (if 1 \<le> x then bitlen \<lfloor>x\<rfloor> - 1 else - bitlen (\<lceil>1 / x\<rceil> - 1))"

definition round_half_even :: "rat \<Rightarrow> int" where
  "round_half_even x =
     (let f = \<lfloor>x\<rfloor>; r = x - of_int f
      in if r < 1 / 2 then f else if 1 / 2 < r then f + 1 else if even f then f else f + 1)"

text \<open>
  The Number value for a rational (IEEE 754 binary64, round to nearest, ties to even):
  53 significant bits, least exponent \<open>-1022\<close> (below it the spacing stays \<open>2^-1074\<close>), and
  an infinity once the rounded magnitude reaches \<open>2^1024\<close>.
\<close>

definition to_double :: "rat \<Rightarrow> jsnum" where
  "to_double x =
     (if x = 0 then Num 0
      else let e = max (ilog2 \<bar>x\<bar>) (- 1022);
               q = pow2 (e - 52);
               r = of_int (round_half_even (x / q)) * q
           in if 2 ^ 1024 \<le> r then PosInfinity
              else if r \<le> - (2 ^ 1024) then NegInfinity
              else Num r)"

text \<open>A rational that is a double: converting it changes nothing.\<close>

definition representable :: "rat \<Rightarrow> bool" where
  "representable x = (to_double x = Num x)"

text \<open>
  The unit roundoff of the doubles, \<open>2^-53\<close>, and the least positive normal double,
  \<open>2^-1022\<close>: a rounding moves a value \<open>x\<close> by at most
  \<open>unit_roundoff * \<bar>x\<bar> + unit_roundoff * least_normal\<close>.
\<close>

definition unit_roundoff :: rat where "unit_roundoff = 1 / 2 ^ 53"

definition least_normal :: rat where "least_normal = 1 / 2 ^ 1022"

text \<open>The operators \<^verbatim>\<open>+\<close>, \<^verbatim>\<open>-\<close>, \<^verbatim>\<open>*\<close> and \<^verbatim>\<open>/\<close> on Numbers.\<close>

fun js_add :: "jsnum \<Rightarrow> jsnum \<Rightarrow> jsnum" where
  "js_add NaN _ = NaN"
| "js_add _ NaN = NaN"
| "js_add PosInfinity NegInfinity = NaN"
| "js_add NegInfinity PosInfinity = NaN"
| "js_add PosInfinity _ = PosInfinity"
| "js_add _ PosInfinity = PosInfinity"
| "js_add NegInfinity _ = NegInfinity"
| "js_add _ NegInfinity = NegInfinity"
| "js_add (Num a) (Num b) = to_double (a + b)"

fun js_neg :: "jsnum \<Rightarrow> jsnum" where
  "js_neg (Num a) = Num (- a)"
| "js_neg PosInfinity = NegInfinity"
| "js_neg NegInfinity = PosInfinity"
| "js_neg NaN = NaN"

definition js_sub :: "jsnum \<Rightarrow> jsnum \<Rightarrow> jsnum" where
  "js_sub a b = js_add a (js_neg b)"

text \<open>The sign of a Number, with \<open>None\<close> for NaN.\<close>

fun js_sign :: "jsnum \<Rightarrow> int option" where
  "js_sign (Num a) = Some (if a < 0 then - 1 else if a = 0 then 0 else 1)"
| "js_sign PosInfinity = Some 1"
| "js_sign NegInfinity = Some (- 1)"
| "js_sign NaN = None"

definition signed_infinity :: "int \<Rightarrow> jsnum" where
  "signed_infinity s = (if s = 0 then NaN else if 0 < s then PosInfinity else NegInfinity)"

fun js_mul :: "jsnum \<Rightarrow> jsnum \<Rightarrow> jsnum" where
  "js_mul (Num a) (Num b) = to_double (a * b)"
| "js_mul a b =
     (case (js_sign a, js_sign b) of
        (Some x, Some y) \<Rightarrow> signed_infinity (x * y)
      | _ \<Rightarrow> NaN)"

text \<open>Division; a zero divisor is read as the positive zero.\<close>

fun js_div :: "jsnum \<Rightarrow> jsnum \<Rightarrow> jsnum" where
  "js_div (Num a) (Num b) =
     (if b = 0 then signed_infinity (if a < 0 then - 1 else if a = 0 then 0 else 1)
      else to_double (a / b))"
| "js_div NaN _ = NaN"
| "js_div _ NaN = NaN"
| "js_div (Num a) _ = Num 0"
| "js_div PosInfinity (Num b) = (if b < 0 then NegInfinity else PosInfinity)"
| "js_div NegInfinity (Num b) = (if b < 0 then PosInfinity else NegInfinity)"
| "js_div _ _ = NaN"

text \<open>\<^verbatim>\<open>isNaN\<close>, \<^verbatim>\<open>Number.isFinite\<close>, and the truth value of a Number (neither zero nor NaN).\<close>

definition isNaN :: "jsnum \<Rightarrow> bool" where
  "isNaN n = (n = NaN)"

fun isFinite :: "jsnum \<Rightarrow> bool" where
  "isFinite (Num a) = True"
| "isFinite _ = False"

definition truthy :: "jsnum \<Rightarrow> bool" where
  "truthy n = (n \<noteq> NaN \<and> n \<noteq> Num 0)"

text \<open>\<^verbatim>\<open>n || 0\<close>.\<close>

definition or_zero :: "jsnum \<Rightarrow> jsnum" where
  "or_zero n = (if truthy n then n else Num 0)"

section \<open>Amounts\<close>

text \<open>The value of a run of decimal digits.\<close>

definition digit_val :: "char \<Rightarrow> int" where
  "digit_val c = of_char c - 48"

definition dec_value :: "string \<Rightarrow> int" where
  "dec_value s = foldl (\<lambda>acc c. 10 * acc + digit_val c) 0 s"

definition sign_apply :: "bool \<Rightarrow> rat \<Rightarrow> rat" where
  "sign_apply neg x = (if neg then - x else x)"

text \<open>
  \<^verbatim>\<open>Number(s)\<close> for a string of digits, minus signs and full stops, which is all that
  \<^verbatim>\<open>parseAmount\<close> passes to it: the empty string is 0; an optional leading minus sign, then
  digits with at most one full stop and at least one digit, is that decimal number as a
  double; every other such string is NaN.
\<close>

definition number_of_string :: "string \<Rightarrow> jsnum" where
  "number_of_string s =
     (if s = [] then Num 0
      else let neg = (hd s = CHR ''-'');
               u = (if neg then tl s else s);
               ip = takeWhile is_digit u
           in case dropWhile is_digit u of
                [] \<Rightarrow> if ip = [] then NaN
                      else to_double (sign_apply neg (of_int (dec_value ip)))
              | c # fp \<Rightarrow>
                  if c = CHR ''.'' \<and> list_all is_digit fp \<and> \<not> (ip = [] \<and> fp = [])
                  then to_double (sign_apply neg
                         (of_int (dec_value ip) + of_int (dec_value fp) / 10 ^ length fp))
                  else NaN)"

text \<open>The characters that \<^verbatim>\<open>replace(/[^\d\-,.]/g, '')\<close> keeps.\<close>

definition amount_char :: "char \<Rightarrow> bool" where
  "amount_char c = (is_digit c \<or> c \<in> set ''-,.'')"

definition clean_amount :: "string \<Rightarrow> string" where
  "clean_amount s = filter (\<lambda>c. c \<noteq> CHR '','') (filter amount_char s)"

text \<open>
  \<^verbatim>\<open>parseAmount(s)\<close>; the argument is a string, or \<open>None\<close> for \<^verbatim>\<open>null\<close> and \<^verbatim>\<open>undefined\<close>
  (a missing cell).
\<close>

definition parseAmount :: "string option \<Rightarrow> jsnum" where
  "parseAmount s =
     (case s of None \<Rightarrow> Num 0
      | Some v \<Rightarrow> or_zero (number_of_string (clean_amount v)))"

section \<open>Transactions and the importer\<close>

text \<open>
  A transaction as \<^verbatim>\<open>loadCsvText\<close> builds it; \<open>amount\<close> is a finite Number, and the
  property \<^verbatim>\<open>category\<close> is absent (\<open>None\<close>) until it is assigned.
\<close>

record txn =
  date :: string
  amount :: rat
  description :: string
  category :: "string option"

definition COL_DATE :: nat where "COL_DATE = 2"
definition COL_DEBIT :: nat where "COL_DEBIT = 5"
definition COL_LONGDESC :: nat where "COL_LONGDESC = 9"

text \<open>\<^verbatim>\<open>r[i]\<close>: the cell, or \<^verbatim>\<open>undefined\<close> beyond the end of the row.\<close>

definition cell :: "string list \<Rightarrow> nat \<Rightarrow> string option" where
  "cell r i = (if i < length r then Some (r ! i) else None)"

text \<open>\<^verbatim>\<open>v || ''\<close>.\<close>

definition or_empty :: "string option \<Rightarrow> string" where
  "or_empty v = (case v of None \<Rightarrow> [] | Some x \<Rightarrow> x)"

text \<open>The body of the loop of \<^verbatim>\<open>loadCsvText\<close>: the transactions one row pushes.\<close>

definition row_txns :: "string list \<Rightarrow> txn list" where
  "row_txns r =
     (if length r < 10 then []
      else let effectiveDate = or_empty (cell r COL_DATE);
               debit = parseAmount (cell r COL_DEBIT);
               longDesc = trim (or_empty (cell r COL_LONGDESC))
           in case debit of
                Num a \<Rightarrow>
                  if \<not> (effectiveDate = [] \<and> longDesc = []) \<and> a \<noteq> 0
                  then [\<lparr>date = effectiveDate, amount = a, description = longDesc,
                         category = None\<rparr>]
                  else []
              | _ \<Rightarrow> [])"

text \<open>
  \<^verbatim>\<open>loadCsvText\<close> on the rows that the CSV reader returns: the index \<^verbatim>\<open>startIdx\<close>, then the
  loop over the rows from it.
\<close>

definition startIdx :: "string list list \<Rightarrow> nat" where
  "startIdx rows =
     (if rows \<noteq> [] \<and> isNaN (parseAmount (cell (hd rows) COL_DEBIT)) then 1 else 0)"

definition loadCsvText :: "string list list \<Rightarrow> txn list" where
  "loadCsvText rows = concat (map row_txns (drop (startIdx rows) rows))"

text \<open>
  The header detection in the words of the specification: row 0 is skipped exactly when
  its amount cell does not parse to a finite nonzero number.
\<close>

definition finite_nonzero :: "jsnum \<Rightarrow> bool" where
  "finite_nonzero n = (isFinite n \<and> n \<noteq> Num 0)"

definition import_spec :: "string list list \<Rightarrow> txn list" where
  "import_spec rows =
     (if rows \<noteq> [] \<and> \<not> finite_nonzero (parseAmount (cell (hd rows) COL_DEBIT))
      then concat (map row_txns (tl rows))
      else concat (map row_txns rows))"

section \<open>Smart date parser\<close>

text \<open>
  A \<^verbatim>\<open>Date\<close> built from a year, a month and a day is modelled by the calendar date it
  shows: the full year, the month as \<^verbatim>\<open>getMonth()\<close> counts it (0 for January) and the day
  of the month.
\<close>

record cal_date =
  full_year :: int
  month_index :: int
  day_of_month :: int

definition leap_year :: "int \<Rightarrow> bool" where
  "leap_year y = (y mod 4 = 0 \<and> (y mod 400 = 0 \<or> y mod 100 \<noteq> 0))"

definition days_in_month :: "int \<Rightarrow> int \<Rightarrow> int" where
  "days_in_month y m =
     (if m = 1 then (if leap_year y then 29 else 28)
      else if m = 3 \<or> m = 5 \<or> m = 8 \<or> m = 10 then 30
      else 31)"

definition prev_month :: "int \<Rightarrow> int \<Rightarrow> int \<times> int" where
  "prev_month y m = (if m = 0 then (y - 1, 11) else (y, m - 1))"

definition next_month :: "int \<Rightarrow> int \<Rightarrow> int \<times> int" where
  "next_month y m = (if m = 11 then (y + 1, 0) else (y, m + 1))"

text \<open>
  Day \<open>d\<close> counted from the first of month \<open>m\<close> of year \<open>y\<close>: a day before the first lies in
  the months before, a day after the last in the months after.
\<close>

function roll_days :: "int \<Rightarrow> int \<Rightarrow> int \<Rightarrow> cal_date" where
  "roll_days y m d =
     (if d < 1 then
        roll_days (fst (prev_month y m)) (snd (prev_month y m))
          (d + days_in_month (fst (prev_month y m)) (snd (prev_month y m)))
      else if days_in_month y m < d then
        roll_days (fst (next_month y m)) (snd (next_month y m)) (d - days_in_month y m)
      else \<lparr>full_year = y, month_index = m, day_of_month = d\<rparr>)"
  by pat_completeness auto
termination
proof (relation "measure (\<lambda>(y, m, d). if d < 1 then nat (1 - d) * 100 + 100 else nat d)")
  show "wf (measure (\<lambda>(y, m, d). if d < 1 then nat (1 - d) * 100 + 100 else nat d))"
    by simp
next
  fix y m d :: int
  assume "d < 1"
  moreover have "28 \<le> days_in_month (fst (prev_month y m)) (snd (prev_month y m))"
    and "days_in_month (fst (prev_month y m)) (snd (prev_month y m)) \<le> 31"
    by (simp_all add: days_in_month_def)
  ultimately show "((fst (prev_month y m), snd (prev_month y m),
      d + days_in_month (fst (prev_month y m)) (snd (prev_month y m))), y, m, d)
    \<in> measure (\<lambda>(y, m, d). if d < 1 then nat (1 - d) * 100 + 100 else nat d)"
    by (simp split: if_splits) linarith
next
  fix y m d :: int
  assume "\<not> d < 1" and "days_in_month y m < d"
  moreover have "28 \<le> days_in_month y m"
    by (simp add: days_in_month_def)
  ultimately show "((fst (next_month y m), snd (next_month y m), d - days_in_month y m), y, m, d)
    \<in> measure (\<lambda>(y, m, d). if d < 1 then nat (1 - d) * 100 + 100 else nat d)"
    by simp
qed

text \<open>
  \<^verbatim>\<open>new Date(y, m, d)\<close>: a year from 0 to 99 means 1900 and later; the month index carries
  into the year, and the day rolls over the months.
\<close>

definition new_Date :: "int \<Rightarrow> int \<Rightarrow> int \<Rightarrow> cal_date" where
  "new_Date y m d =
     (let yy = (if 0 \<le> y \<and> y \<le> 99 then 1900 + y else y)
      in roll_days (yy + m div 12) (m mod 12) d)"

text \<open>
  Pieces of the three regular expressions. A run of \<open>lo\<close> to \<open>hi\<close> digits followed by
  something that is not a digit is the whole run of digits at the head of the text.
\<close>

definition digit_run :: "nat \<Rightarrow> nat \<Rightarrow> string \<Rightarrow> (string \<times> string) option" where
  "digit_run lo hi s =
     (let ds = takeWhile is_digit s
      in if lo \<le> length ds \<and> length ds \<le> hi then Some (ds, dropWhile is_digit s) else None)"

definition expect :: "(char \<Rightarrow> bool) \<Rightarrow> string \<Rightarrow> string option" where
  "expect P s = (case s of [] \<Rightarrow> None | c # r \<Rightarrow> if P c then Some r else None)"

text \<open>The class \<^verbatim>\<open>[\/-]\<close>.\<close>

definition is_sep :: "char \<Rightarrow> bool" where
  "is_sep c = (c = CHR ''/'' \<or> c = CHR ''-'')"

text \<open>A literal word at the head of the text, ignoring case; the rest of the text.\<close>

definition expect_word :: "string \<Rightarrow> string \<Rightarrow> string option" where
  "expect_word w s =
     (if length w \<le> length s \<and> list_all2 ci_eq w (take (length w) s)
      then Some (drop (length w) s) else None)"

text \<open>
  The first of the alternatives \<^verbatim>\<open>w1|w2|...\<close> at the head of the text: the text it matched
  and the rest.
\<close>

fun expect_one_of :: "string list \<Rightarrow> string \<Rightarrow> (string \<times> string) option" where
  "expect_one_of [] s = None"
| "expect_one_of (w # ws) s =
     (case expect_word w s of
        Some r \<Rightarrow> Some (take (length w) s, r)
      | None \<Rightarrow> expect_one_of ws s)"

text \<open>\<^verbatim>\<open>\s+\<close> before something that is not a space.\<close>

definition spaces1 :: "string \<Rightarrow> string option" where
  "spaces1 s = do { r \<leftarrow> expect is_space s; Some (dropWhile is_space r) }"

text \<open>Pattern 1, \<^verbatim>\<open>/^(\d{4})[\/-](\d{1,2})[\/-](\d{1,2})$/\<close>: the three groups.\<close>

definition match_iso :: "string \<Rightarrow> (string \<times> string \<times> string) option" where
  "match_iso s = do {
     (g1, r1) \<leftarrow> digit_run 4 4 s;
     r2 \<leftarrow> expect is_sep r1;
     (g2, r3) \<leftarrow> digit_run 1 2 r2;
     r4 \<leftarrow> expect is_sep r3;
     (g3, r5) \<leftarrow> digit_run 1 2 r4;
     if r5 = [] then Some (g1, g2, g3) else None
   }"

text \<open>Pattern 2, \<^verbatim>\<open>/^(\d{1,2})[\/-](\d{1,2})[\/-](\d{4})$/\<close>: the three groups.\<close>

definition match_dmy :: "string \<Rightarrow> (string \<times> string \<times> string) option" where
  "match_dmy s = do {
     (g1, r1) \<leftarrow> digit_run 1 2 s;
     r2 \<leftarrow> expect is_sep r1;
     (g2, r3) \<leftarrow> digit_run 1 2 r2;
     r4 \<leftarrow> expect is_sep r3;
     (g3, r5) \<leftarrow> digit_run 4 4 r4;
     if r5 = [] then Some (g1, g2, g3) else None
   }"

text \<open>\<^verbatim>\<open>str.replace(/^\d{1,2}:\d{2}\s*(am|pm)\s*/i, '')\<close>: a leading time of day is removed.\<close>

definition strip_time :: "string \<Rightarrow> string" where
  "strip_time s =
     (case do {
        (h, r1) \<leftarrow> digit_run 1 2 s;
        r2 \<leftarrow> expect (\<lambda>c. c = CHR '':'') r1;
        (mi, r3) \<leftarrow> digit_run 2 2 r2;
        (w, r4) \<leftarrow> expect_one_of [''am'', ''pm''] (dropWhile is_space r3);
        Some (dropWhile is_space r4)
      } of Some r \<Rightarrow> r | None \<Rightarrow> s)"

definition weekdays :: "string list" where
  "weekdays = [''Mon'', ''Tue'', ''Wed'', ''Thu'', ''Fri'', ''Sat'', ''Sun'']"

definition month_names :: "string list" where
  "month_names = [''January'', ''February'', ''March'', ''April'', ''May'', ''June'', ''July'',
     ''August'', ''September'', ''October'', ''November'', ''December'']"

text \<open>
  Pattern 3, the regular expression
  \<^verbatim>\<open>/^(?:Mon|Tue|Wed|Thu|Fri|Sat|Sun)?\s*(\d{1,2})\s+(January|...|December),?\s+(\d{4})/i\<close>:
  the day, the month name as the text spells it, and the year. Nothing anchors the end,
  so the year is the first four digits after the spaces.
\<close>

definition match_prose :: "string \<Rightarrow> (string \<times> string \<times> string) option" where
  "match_prose s = do {
     let r0 = (case expect_one_of weekdays s of Some (w, r) \<Rightarrow> r | None \<Rightarrow> s);
     (g1, r1) \<leftarrow> digit_run 1 2 (dropWhile is_space r0);
     r2 \<leftarrow> spaces1 r1;
     (g2, r3) \<leftarrow> expect_one_of month_names r2;
     let r4 = (case expect (\<lambda>c. c = CHR '','') r3 of Some r \<Rightarrow> r | None \<Rightarrow> r3);
     r5 \<leftarrow> spaces1 r4;
     if 4 \<le> length (takeWhile is_digit r5)
     then Some (g1, g2, take 4 r5) else None
   }"

text \<open>The table \<^verbatim>\<open>monthMap\<close>, on the lower-cased month name.\<close>

definition monthMap :: "string \<Rightarrow> int option" where
  "monthMap = map_of (zip (map toLowerCase month_names) [0, 1, 2, 3, 4, 5, 6, 7, 8, 9, 10, 11])"

text \<open>\<^verbatim>\<open>parseDateSmart\<close>; \<open>None\<close> is \<^verbatim>\<open>null\<close>.\<close>

definition parseDateSmart :: "string \<Rightarrow> cal_date option" where
  "parseDateSmart s =
     (if s = [] then None
      else let str = trim s
           in case match_iso str of
                Some (g1, g2, g3) \<Rightarrow>
                  Some (new_Date (dec_value g1) (dec_value g2 - 1) (dec_value g3))
              | None \<Rightarrow>
                 (case match_dmy str of
                    Some (g1, g2, g3) \<Rightarrow>
                      Some (new_Date (dec_value g3) (dec_value g2 - 1) (dec_value g1))
                  | None \<Rightarrow>
                     (case match_prose (strip_time str) of
                        Some (g1, g2, g3) \<Rightarrow>
                          (case monthMap (toLowerCase g2) of
                             Some monthIndex \<Rightarrow>
                               Some (new_Date (dec_value g3) monthIndex (dec_value g1))
                           | None \<Rightarrow> None)
                      | None \<Rightarrow> None)))"

text \<open>The month as \<^verbatim>\<open>yyyymm\<close> numbers it: \<^verbatim>\<open>getMonth() + 1\<close>.\<close>

definition calendar_month :: "cal_date \<Rightarrow> int" where
  "calendar_month d = month_index d + 1"

text \<open>A date of the calendar, and a year, month and day that name one.\<close>

definition valid_date :: "cal_date \<Rightarrow> bool" where
  "valid_date d = (0 \<le> month_index d \<and> month_index d \<le> 11 \<and> 1 \<le> day_of_month d
     \<and> day_of_month d \<le> days_in_month (full_year d) (month_index d))"

definition valid_written :: "int \<Rightarrow> int \<Rightarrow> int \<Rightarrow> bool" where
  "valid_written y mo da =
     (1 \<le> mo \<and> mo \<le> 12 \<and> 1 \<le> da \<and> da \<le> days_in_month y (mo - 1))"

text \<open>
  The year, month and day that a text writes in digits, when it has the form of pattern 1
  or of pattern 2.
\<close>

definition numeric_fields :: "string \<Rightarrow> (int \<times> int \<times> int) option" where
  "numeric_fields s =
     (case match_iso (trim s) of
        Some (g1, g2, g3) \<Rightarrow> Some (dec_value g1, dec_value g2, dec_value g3)
      | None \<Rightarrow>
         (case match_dmy (trim s) of
            Some (g1, g2, g3) \<Rightarrow> Some (dec_value g3, dec_value g2, dec_value g1)
          | None \<Rightarrow> None))"

text \<open>A date lies in a month next to a written month, or in a year next to the written year.\<close>

definition months_apart :: "cal_date \<Rightarrow> int \<Rightarrow> int \<Rightarrow> int" where
  "months_apart d y mo = \<bar>(full_year d * 12 + calendar_month d) - (y * 12 + mo)\<bar>"

definition adjacent_month_or_year :: "cal_date \<Rightarrow> int \<Rightarrow> int \<Rightarrow> bool" where
  "adjacent_month_or_year d y mo = (months_apart d y mo = 1 \<or> \<bar>full_year d - y\<bar> = 1)"


section \<open>Rule engine: rules and categorisation\<close>

record rule =
  keyword :: string
  rule_category :: string

text \<open>
  \<^verbatim>\<open>text.split(/\r?\n/)\<close>: the lines of a text; a carriage return right before a line feed
  belongs to the line break.
\<close>

fun split_lines :: "string \<Rightarrow> string list" where
  "split_lines [] = [[]]"
| "split_lines (c # cs) =
     (if c = CHR 0x0A then [] # split_lines cs
      else if c = CHR 0x0D \<and> cs \<noteq> [] \<and> hd cs = CHR 0x0A then [] # split_lines (tl cs)
      else (case split_lines cs of l # ls \<Rightarrow> (c # l) # ls | [] \<Rightarrow> [[c]]))"


text \<open>\<^verbatim>\<open>line.split(/=>/i)\<close>: the parts between the arrows. The first argument is the part
  being read.\<close>

fun split_arrow :: "string \<Rightarrow> string \<Rightarrow> string list" where
  "split_arrow acc [] = [rev acc]"
| "split_arrow acc [c] = [rev (c # acc)]"
| "split_arrow acc (c # d # cs) =
     (if c = CHR ''='' \<and> d = CHR ''>'' then rev acc # split_arrow [] cs
      else split_arrow (c # acc) (d # cs))"

text \<open>\<^verbatim>\<open>trimmed.startsWith('#')\<close>.\<close>

definition starts_with_hash :: "string \<Rightarrow> bool" where
  "starts_with_hash s = (s \<noteq> [] \<and> hd s = CHR ''#'')"

text \<open>The body of the loop of \<^verbatim>\<open>parseRules\<close>: the rules one line pushes.\<close>

definition line_rules :: "string \<Rightarrow> rule list" where
  "line_rules line =
     (let trimmed = trim line
      in if trimmed = [] \<or> starts_with_hash trimmed then []
         else let parts = split_arrow [] trimmed
              in if 2 \<le> length parts
                 then let kw = toLowerCase (trim (parts ! 0));
                          cat = toUpperCase (trim (parts ! 1))
                      in if kw \<noteq> [] \<and> cat \<noteq> []
                         then [\<lparr>keyword = kw, rule_category = cat\<rparr>] else []
                 else [])"

definition parseRules :: "string \<Rightarrow> rule list" where
  "parseRules text = concat (map line_rules (split_lines text))"

text \<open>The inner loop of \<^verbatim>\<open>categorise\<close>: the category of the first rule that matches.\<close>

fun first_match :: "string \<Rightarrow> rule list \<Rightarrow> string option" where
  "first_match descLower [] = None"
| "first_match descLower (r # rs) =
     (if matchesKeyword descLower (keyword r) then Some (rule_category r)
      else first_match descLower rs)"

text \<open>
  The body of the outer loop of \<^verbatim>\<open>categorise\<close> for one transaction. The transactions of
  this program have no property \<^verbatim>\<open>desc\<close> or \<^verbatim>\<open>debit\<close>, so \<^verbatim>\<open>t.desc || t.description\<close> is
  the description and \<^verbatim>\<open>t.amount || t.debit || 0\<close> the amount. A matched category that
  is the empty string counts as no category in \<^verbatim>\<open>matched && ...\<close> and \<^verbatim>\<open>matched || ...\<close>.
\<close>

definition categorise_txn :: "rule list \<Rightarrow> txn \<Rightarrow> txn" where
  "categorise_txn rules t =
     (let descLower = toLowerCase (description t);
          amt = \<bar>amount t\<bar>;
          matched = first_match descLower rules;
          matched2 = (case matched of
                        None \<Rightarrow> None
                      | Some c \<Rightarrow>
                          if c \<noteq> [] \<and> toUpperCase c = ''PETROL'' \<and> amt \<le> 2
                          then Some ''COFFEE'' else Some c)
      in t\<lparr>category :=
            Some (case matched2 of
                    None \<Rightarrow> ''UNCATEGORISED''
                  | Some c \<Rightarrow> if c \<noteq> [] then c else ''UNCATEGORISED'')\<rparr>)"

text \<open>\<^verbatim>\<open>categorise(txns, rules)\<close> updates every transaction in place; the model returns them.\<close>

definition categorise :: "txn list \<Rightarrow> rule list \<Rightarrow> txn list" where
  "categorise txns rules = map (categorise_txn rules) txns"




definition no_upper :: "string \<Rightarrow> bool" where
  "no_upper s = (\<forall>c \<in> set s. \<not> is_upper c)"

text \<open>Two rules and a transaction for the examples.\<close>

definition ex_rules :: "rule list" where
  "ex_rules = [\<lparr>keyword = ''woolworths'', rule_category = ''GROCERIES''\<rparr>,
               \<lparr>keyword = ''petrol'', rule_category = ''PETROL''\<rparr>]"

definition ex_txn :: "rat \<Rightarrow> string \<Rightarrow> txn" where
  "ex_txn a d = \<lparr>date = ''01/02/2024'', amount = a, description = d, category = None\<rparr>"

section \<open>Aggregator\<close>

text \<open>\<^verbatim>\<open>(t.category || 'UNCATEGORISED').toUpperCase()\<close>.\<close>

definition effective_category :: "txn \<Rightarrow> string" where
  "effective_category t =
     toUpperCase (case category t of
                    None \<Rightarrow> ''UNCATEGORISED''
                  | Some c \<Rightarrow> if c = [] then ''UNCATEGORISED'' else c)"

text \<open>
  \<^verbatim>\<open>byCat.set(cat, (byCat.get(cat) || 0) + a)\<close> on a \<^verbatim>\<open>Map\<close>, kept as the list of its entries
  in insertion order: a key that is present keeps its place, a new key goes last.
\<close>

fun byCat_add :: "(string \<times> jsnum) list \<Rightarrow> string \<Rightarrow> rat \<Rightarrow> (string \<times> jsnum) list" where
  "byCat_add [] cat a = [(cat, js_add (Num 0) (Num a))]"
| "byCat_add ((k, v) # m) cat a =
     (if k = cat then (k, js_add (or_zero v) (Num a)) # m else (k, v) # byCat_add m cat a)"

definition byCat_of :: "txn list \<Rightarrow> (string \<times> jsnum) list" where
  "byCat_of txns = foldl (\<lambda>m t. byCat_add m (effective_category t) (amount t)) [] txns"

text \<open>
  \<^verbatim>\<open>rows.sort((a, b) => b[1] - a[1])\<close>: the comparator is positive when \<^verbatim>\<open>a\<close> goes after
  \<^verbatim>\<open>b\<close>, and the sort is stable. An entry is put before the first sorted entry that it
  need not follow.
\<close>

definition js_positive :: "jsnum \<Rightarrow> bool" where
  "js_positive n = (case n of Num a \<Rightarrow> 0 < a | PosInfinity \<Rightarrow> True | _ \<Rightarrow> False)"

fun insert_row :: "(string \<times> jsnum) \<Rightarrow> (string \<times> jsnum) list \<Rightarrow> (string \<times> jsnum) list" where
  "insert_row x [] = [x]"
| "insert_row x (y # ys) =
     (if js_positive (js_sub (snd y) (snd x)) then y # insert_row x ys else x # y # ys)"

definition sort_rows :: "(string \<times> jsnum) list \<Rightarrow> (string \<times> jsnum) list" where
  "sort_rows xs = foldr insert_row xs []"

record totals =
  rows :: "(string \<times> jsnum) list"
  grand :: jsnum

definition computeCategoryTotals :: "txn list \<Rightarrow> totals" where
  "computeCategoryTotals txns =
     (let rs = sort_rows (byCat_of txns)
      in \<lparr>rows = rs, grand = foldl (\<lambda>acc r. js_add acc (snd r)) (Num 0) rs\<rparr>)"

text \<open>
  The percentage of a row as \<^verbatim>\<open>renderCategoryTotals\<close> and \<^verbatim>\<open>exportTotals\<close> compute it:
  \<^verbatim>\<open>grand ? (total / grand * 100) : 0\<close>.
\<close>

definition pct :: "jsnum \<Rightarrow> jsnum \<Rightarrow> jsnum" where
  "pct g row_total = (if truthy g then js_mul (js_div row_total g) (Num 100) else Num 0)"

text \<open>The value of a finite Number, and 0 for the others.\<close>

fun num_value :: "jsnum \<Rightarrow> rat" where
  "num_value (Num a) = a"
| "num_value _ = 0"

text \<open>
  The row totals of a result as exact numbers, and the percentage that
  \<^verbatim>\<open>renderCategoryTotals\<close> and \<^verbatim>\<open>exportTotals\<close> compute for each row.
\<close>

definition row_values :: "totals \<Rightarrow> rat list" where
  "row_values T = map (\<lambda>r. num_value (snd r)) (rows T)"

definition percentages :: "totals \<Rightarrow> jsnum list" where
  "percentages T = map (\<lambda>r. pct (grand T) (snd r)) (rows T)"

text \<open>
  The amounts of one category in input order, and the running total that \<^verbatim>\<open>byCat\<close> holds
  for it: \<^verbatim>\<open>(byCat.get(cat) || 0) + t.amount\<close> for each of them, from 0.
\<close>

definition cat_amounts :: "string \<Rightarrow> txn list \<Rightarrow> rat list" where
  "cat_amounts c ts = map amount (filter (\<lambda>t. effective_category t = c) ts)"

definition category_total :: "string \<Rightarrow> txn list \<Rightarrow> jsnum" where
  "category_total c ts = foldl (\<lambda>acc a. js_add (or_zero acc) (Num a)) (Num 0) (cat_amounts c ts)"

text \<open>
  The sum of the magnitudes of a list, and the error that \<open>k\<close> roundings one after another
  can leave on a magnitude \<open>w\<close>: \<open>((1 + 2^-53)^k - 1) * w\<close>, about \<open>k * 2^-53 * w\<close>.
\<close>

definition abs_sum :: "rat list \<Rightarrow> rat" where
  "abs_sum xs = sum_list (map abs xs)"

definition rounding_bound :: "nat \<Rightarrow> rat \<Rightarrow> rat" where
  "rounding_bound k w = ((1 + unit_roundoff) ^ k - 1) * w"

text \<open>
  Amounts that cannot overflow a total: at most \<open>2^51\<close> of them, of magnitudes that add up
  to at most \<open>2^1021\<close>.
\<close>

definition in_range :: "rat list \<Rightarrow> bool" where
  "in_range xs = (length xs \<le> 2 ^ 51 \<and> abs_sum xs \<le> 2 ^ 1021)"

text \<open>
  The amounts for which no addition of \<^verbatim>\<open>computeCategoryTotals\<close> can round: every sum of
  some of them, taken in their order, is a double.
\<close>

definition exact_sums :: "rat list \<Rightarrow> bool" where
  "exact_sums xs = list_all (\<lambda>ys. representable (sum_list ys)) (subseqs xs)"

text \<open>The exact sum of the amounts of one category, and of a list of categories.\<close>

definition category_sum :: "string \<Rightarrow> txn list \<Rightarrow> rat" where
  "category_sum c ts = sum_list (map amount (filter (\<lambda>t. effective_category t = c) ts))"

definition categories_sum :: "string list \<Rightarrow> txn list \<Rightarrow> rat" where
  "categories_sum cs ts = sum_list (map amount (filter (\<lambda>t. effective_category t \<in> set cs) ts))"

text \<open>
  The entries of \<^verbatim>\<open>byCat\<close> after the transactions \<open>ts\<close>, when no addition has rounded: one
  entry for each category, holding the exact sum of its amounts.
\<close>

definition byCat_ok :: "(string \<times> jsnum) list \<Rightarrow> txn list \<Rightarrow> bool" where
  "byCat_ok m ts =
     (distinct (map fst m)
      \<and> (\<forall>c. map_of m c = (if c \<in> effective_category ` set ts
                            then Some (Num (category_sum c ts)) else None)))"

definition rows_ok :: "(string \<times> jsnum) list \<Rightarrow> txn list \<Rightarrow> bool" where
  "rows_ok rs ts =
     (distinct (map fst rs) \<and> set (map fst rs) = effective_category ` set ts
      \<and> list_all (\<lambda>r. snd r = Num (category_sum (fst r) ts)) rs)"

text \<open>Transactions for the examples.\<close>

definition ex_cat_txn :: "string \<Rightarrow> rat \<Rightarrow> txn" where
  "ex_cat_txn c a = \<lparr>date = ''01/02/2024'', amount = a, description = ''shop'', category = Some c\<rparr>"

definition ex_thirds :: "txn list" where
  "ex_thirds = [ex_cat_txn ''A'' 1, ex_cat_txn ''B'' 1, ex_cat_txn ''C'' 1]"

definition ex_cancel :: "txn list" where
  "ex_cancel = [ex_cat_txn ''A'' 10000000000000000, ex_cat_txn ''B'' 3,
                ex_cat_txn ''C'' (- 10000000000000000)]"

text \<open>The doubles nearest to 0.1 and 0.2.\<close>

definition ex_cents :: "txn list" where
  "ex_cents = [ex_cat_txn ''A'' (3602879701896397 / 36028797018963968),
               ex_cat_txn ''A'' (3602879701896397 / 18014398509481984)]"

definition ex_overflow :: "txn list" where
  "ex_overflow = [ex_cat_txn ''A'' (2 ^ 1023), ex_cat_txn ''A'' (2 ^ 1023)]"

definition ex_zero :: "txn list" where
  "ex_zero = [ex_cat_txn ''A'' 5, ex_cat_txn ''B'' (- 5)]"

section \<open>Rule upsert\<close>










section \<open>Properties of the number model\<close>

lemma bitlen_pos_step: "0 < x \<Longrightarrow> bitlen x = bitlen (x div 2) + 1"
  by (subst compute_bitlen) simp

lemma floor_rat_numeral_div: "\<lfloor>numeral a / numeral b :: rat\<rfloor> = numeral a div numeral b"
  by (metis floor_divide_of_int_eq of_int_numeral)

lemma floor_rat_neg_numeral_div:
  "\<lfloor>- (numeral a / numeral b) :: rat\<rfloor> = - numeral a div numeral b"
  by (metis divide_minus_left floor_divide_of_int_eq of_int_neg_numeral of_int_numeral)

lemma ceiling_rat_numeral_div:
  "\<lceil>numeral a / numeral b :: rat\<rceil> = - (- numeral a div numeral b)"
  by (metis ceiling_def floor_rat_neg_numeral_div)

text \<open>The equations that evaluate \<^const>\<open>to_double\<close> at a numeral.\<close>

lemmas dbl_eval = to_double_def ilog2_def pow2_def round_half_even_def Let_def bitlen_pos_step
  floor_rat_numeral_div floor_rat_neg_numeral_div ceiling_rat_numeral_div

lemma round_half_even_ge_floor: "\<lfloor>y\<rfloor> \<le> round_half_even y"
  by (simp add: round_half_even_def Let_def)

text \<open>A magnitude of \<open>2^1024\<close> or more is beyond the doubles.\<close>

lemma to_double_overflow:
  assumes big: "2 ^ 1024 \<le> x"
  shows "to_double x = PosInfinity"
proof -
  define n where "n = \<lfloor>x\<rfloor>"
  define e where "e = bitlen n - 1"
  from big have x1: "1 \<le> x" by (rule order_trans [rotated]) simp
  from big have "rat_of_int (2 ^ 1024) \<le> x" by simp
  then have n_big: "2 ^ 1024 \<le> n" unfolding n_def by (simp only: le_floor_iff)
  then have n_pos: "0 < n" by (rule less_le_trans [rotated]) simp
  from bitlen_bounds [OF n_pos]
  have lo: "2 ^ nat e \<le> n" and hi: "n < 2 ^ nat (bitlen n)" by (simp_all add: e_def)
  from n_big hi have "(2::int) ^ 1024 < 2 ^ nat (bitlen n)" by linarith
  then have "1024 < nat (bitlen n)"
    by (simp only: power_strict_increasing_iff one_less_numeral_iff semiring_norm)
  then have e_big: "1024 \<le> e" by (simp add: e_def)
  define q :: rat where "q = 2 ^ nat (e - 52)"
  have q_pos: "0 < q" by (simp add: q_def)
  have split: "nat e = nat (e - 52) + 52" using e_big by simp
  have two_e: "(2::rat) ^ nat e = 2 ^ 52 * q"
    by (subst split) (simp add: q_def power_add)
  have "rat_of_int (2 ^ nat e) \<le> rat_of_int n" using lo by (simp only: of_int_le_iff)
  also have "\<dots> \<le> x" by (simp add: n_def)
  finally have "2 ^ 52 * q \<le> x" by (simp add: two_e)
  with q_pos have "rat_of_int (2 ^ 52) \<le> x / q" by (simp add: field_simps)
  then have "2 ^ 52 \<le> \<lfloor>x / q\<rfloor>" by (simp only: le_floor_iff)
  with round_half_even_ge_floor [of "x / q"] have "2 ^ 52 \<le> round_half_even (x / q)"
    by linarith
  then have "rat_of_int (2 ^ 52) \<le> rat_of_int (round_half_even (x / q))"
    by (simp only: of_int_le_iff)
  then have step: "2 ^ 52 * q \<le> rat_of_int (round_half_even (x / q)) * q"
    using q_pos by (intro mult_right_mono) simp_all
  have "(2::rat) ^ 1024 \<le> 2 ^ nat e"
    using e_big by (intro power_increasing) simp_all
  also have "\<dots> = 2 ^ 52 * q" by (rule two_e)
  also note step
  finally have r_big: "2 ^ 1024 \<le> rat_of_int (round_half_even (x / q)) * q" .
  have il: "ilog2 \<bar>x\<bar> = e" using x1 by (simp add: ilog2_def e_def n_def)
  have px: "pow2 (max e (- 1022) - 52) = q" using e_big by (simp add: pow2_def q_def max_def)
  from x1 have "x \<noteq> 0" by auto
  then show ?thesis
    unfolding to_double_def il Let_def px using r_big by simp
qed

text \<open>
  The error of one rounding: a value that rounds to a finite double \<open>r\<close> is within
  \<open>unit_roundoff * \<bar>x\<bar> + unit_roundoff * least_normal\<close> of it, and a magnitude of at most
  \<open>2^1023\<close> rounds to a finite double.
\<close>

lemma pow2_pos: "0 < pow2 e"
  by (simp add: pow2_def)

lemma pow2_powi: "pow2 e = 2 powi e"
  by (simp add: pow2_def power_int_def power_one_over inverse_eq_divide)

lemma pow2_diff: "pow2 (e - int k) = pow2 e / 2 ^ k"
  by (simp add: pow2_powi power_int_diff)

lemma ilog2_lower:
  assumes "0 < x"
  shows "pow2 (ilog2 x) \<le> x"
proof (cases "1 \<le> x")
  case True
  define n where "n = \<lfloor>x\<rfloor>"
  from True have n_pos: "0 < n" by (simp add: n_def)
  from bitlen_bounds [OF n_pos] have "2 ^ nat (bitlen n - 1) \<le> n" by simp
  then have "rat_of_int (2 ^ nat (bitlen n - 1)) \<le> rat_of_int n" by (simp only: of_int_le_iff)
  also have "\<dots> \<le> x" by (simp add: n_def)
  finally have "2 ^ nat (bitlen n - 1) \<le> x" by simp
  moreover have "0 \<le> bitlen n - 1"
  proof (rule ccontr)
    assume "\<not> 0 \<le> bitlen n - 1"
    then have "nat (bitlen n) = 0" by simp
    with bitlen_bounds [OF n_pos] n_pos show False by simp
  qed
  ultimately show ?thesis using True by (simp add: ilog2_def pow2_def n_def)
next
  case False
  define y where "y = 1 / x"
  define m where "m = \<lceil>y\<rceil> - 1"
  from False assms have y1: "1 < y" by (simp add: y_def)
  then have "1 < \<lceil>y\<rceil>" by (simp add: less_ceiling_iff)
  then have m_pos: "0 < m" by (simp add: m_def)
  from bitlen_bounds [OF m_pos] have "m < 2 ^ nat (bitlen m)" by simp
  then have "\<lceil>y\<rceil> \<le> 2 ^ nat (bitlen m)" by (simp add: m_def)
  then have "rat_of_int \<lceil>y\<rceil> \<le> rat_of_int (2 ^ nat (bitlen m))" by (simp only: of_int_le_iff)
  then have "y \<le> 2 ^ nat (bitlen m)" by (simp add: ceiling_le_iff)
  then have "1 / 2 ^ nat (bitlen m) \<le> x" using assms by (simp add: y_def field_simps)
  moreover have "0 < bitlen m"
  proof (rule ccontr)
    assume "\<not> 0 < bitlen m"
    then have "nat (bitlen m) = 0" by simp
    with bitlen_bounds [OF m_pos] m_pos show False by simp
  qed
  ultimately show ?thesis using False by (simp add: ilog2_def pow2_def m_def y_def)
qed

lemma round_half_even_error: "\<bar>rat_of_int (round_half_even y) - y\<bar> \<le> 1 / 2"
proof -
  have "rat_of_int \<lfloor>y\<rfloor> \<le> y" "y < rat_of_int \<lfloor>y\<rfloor> + 1" by linarith+
  then show ?thesis by (auto simp: round_half_even_def Let_def)
qed

lemma to_double_core:
  assumes "x \<noteq> 0"
  obtains r where "\<bar>r - x\<bar> \<le> unit_roundoff * \<bar>x\<bar> + unit_roundoff * least_normal"
    and "to_double x = (if 2 ^ 1024 \<le> r then PosInfinity
                         else if r \<le> - (2 ^ 1024) then NegInfinity else Num r)"
proof -
  define e where "e = max (ilog2 \<bar>x\<bar>) (- 1022)"
  define q where "q = pow2 (e - 52)"
  define r where "r = rat_of_int (round_half_even (x / q)) * q"
  have q_pos: "0 < q" by (simp add: q_def pow2_pos)
  have "r - x = (rat_of_int (round_half_even (x / q)) - x / q) * q"
    using q_pos by (simp add: r_def left_diff_distrib)
  then have "\<bar>r - x\<bar> = \<bar>rat_of_int (round_half_even (x / q)) - x / q\<bar> * q"
    using q_pos by (simp add: abs_mult)
  also have "\<dots> \<le> 1 / 2 * q"
    using q_pos by (intro mult_right_mono round_half_even_error) simp
  finally have err: "\<bar>r - x\<bar> \<le> q / 2" by simp
  have "q / 2 \<le> unit_roundoff * \<bar>x\<bar> + unit_roundoff * least_normal"
  proof (cases "- 1022 \<le> ilog2 \<bar>x\<bar>")
    case True
    then have "e = ilog2 \<bar>x\<bar>" by (simp add: e_def)
    then have "q / 2 = pow2 (ilog2 \<bar>x\<bar> - int 53)" by (simp add: q_def pow2_powi power_int_diff)
    also have "\<dots> = unit_roundoff * pow2 (ilog2 \<bar>x\<bar>)"
      by (simp only: pow2_diff) (simp add: unit_roundoff_def)
    also have "\<dots> \<le> unit_roundoff * \<bar>x\<bar>"
      using assms by (intro mult_left_mono ilog2_lower) (simp_all add: unit_roundoff_def)
    finally show ?thesis by (simp add: unit_roundoff_def least_normal_def)
  next
    case False
    then have "e = - 1022" by (simp add: e_def)
    then have "q / 2 = unit_roundoff * least_normal"
      by (simp add: q_def pow2_def unit_roundoff_def least_normal_def)
    then show ?thesis by (simp add: unit_roundoff_def)
  qed
  with err have "\<bar>r - x\<bar> \<le> unit_roundoff * \<bar>x\<bar> + unit_roundoff * least_normal" by simp
  moreover have "to_double x = (if 2 ^ 1024 \<le> r then PosInfinity
                         else if r \<le> - (2 ^ 1024) then NegInfinity else Num r)"
    using assms by (simp add: to_double_def Let_def r_def q_def e_def)
  ultimately show ?thesis by (rule that)
qed

lemma to_double_error:
  assumes "to_double x = Num r"
  shows "\<bar>r - x\<bar> \<le> unit_roundoff * \<bar>x\<bar> + unit_roundoff * least_normal"
proof (cases "x = 0")
  case True
  with assms show ?thesis by (simp add: to_double_def unit_roundoff_def least_normal_def)
next
  case False
  then obtain r' where "\<bar>r' - x\<bar> \<le> unit_roundoff * \<bar>x\<bar> + unit_roundoff * least_normal"
    and "to_double x = (if 2 ^ 1024 \<le> r' then PosInfinity
                         else if r' \<le> - (2 ^ 1024) then NegInfinity else Num r')"
    by (rule to_double_core)
  with assms show ?thesis by (auto split: if_splits)
qed

lemma to_double_finite:
  assumes "\<bar>x\<bar> \<le> 2 ^ 1023"
  shows "\<exists>r. to_double x = Num r"
proof (cases "x = 0")
  case True
  then show ?thesis by (simp add: to_double_def)
next
  case False
  then obtain r where err: "\<bar>r - x\<bar> \<le> unit_roundoff * \<bar>x\<bar> + unit_roundoff * least_normal"
    and val: "to_double x = (if 2 ^ 1024 \<le> r then PosInfinity
                         else if r \<le> - (2 ^ 1024) then NegInfinity else Num r)"
    by (rule to_double_core)
  have "unit_roundoff * \<bar>x\<bar> \<le> unit_roundoff * 2 ^ 1023"
    using assms by (intro mult_left_mono) (simp_all add: unit_roundoff_def)
  with err have "\<bar>r - x\<bar> \<le> unit_roundoff * 2 ^ 1023 + unit_roundoff * least_normal" by linarith
  also have "\<dots> < 2 ^ 1023" by (simp add: unit_roundoff_def least_normal_def)
  finally have "\<bar>r - x\<bar> < 2 ^ 1023" .
  moreover have "(2::rat) ^ 1024 = 2 * 2 ^ 1023" by simp
  ultimately have "\<bar>r\<bar> < 2 ^ 1024" using assms by linarith
  with val show ?thesis by (auto simp: abs_less_iff)
qed

lemma or_zero_not_NaN: "or_zero n \<noteq> NaN"
  by (simp add: or_zero_def truthy_def)

lemma or_zero_cases: "or_zero n = (if n = NaN then Num 0 else n)"
  by (auto simp: or_zero_def truthy_def)

section \<open>Properties of \<^verbatim>\<open>parseAmount\<close>\<close>

lemma parseAmount_not_NaN: "parseAmount s \<noteq> NaN"
  by (cases s) (simp_all add: parseAmount_def or_zero_not_NaN)

lemma dec_value_zeros:
  "foldl (\<lambda>acc c. 10 * acc + digit_val c) a (replicate n (CHR ''0'')) = a * 10 ^ n"
  by (induction n arbitrary: a) (simp_all add: digit_val_def)

lemma takeWhile_replicate_digit:
  "takeWhile is_digit (replicate n (CHR ''0'')) = replicate n (CHR ''0'')"
  by (induction n) (simp_all add: is_digit_def)

lemma dropWhile_replicate_digit: "dropWhile is_digit (replicate n (CHR ''0'')) = []"
  by (induction n) (simp_all add: is_digit_def)

lemma filter_replicate_zero:
  "filter P (replicate n (CHR ''0'')) = (if P (CHR ''0'') then replicate n (CHR ''0'') else [])"
  by (induction n) simp_all

lemma dec_value_big: "dec_value (CHR ''1'' # replicate 309 (CHR ''0'')) = 10 ^ 309"
  unfolding dec_value_def foldl_Cons dec_value_zeros by (simp add: digit_val_def)

lemma number_big:
  "number_of_string (CHR ''1'' # replicate 309 (CHR ''0'')) = to_double (10 ^ 309)"
  unfolding number_of_string_def
  by (simp add: is_digit_def takeWhile_replicate_digit dropWhile_replicate_digit sign_apply_def
      dec_value_big del: replicate.simps)

text \<open>A 1 followed by 309 zeros, an amount of 310 digits, parses to \<^verbatim>\<open>Infinity\<close>.\<close>

lemma parseAmount_big:
  "parseAmount (Some (CHR ''1'' # replicate 309 (CHR ''0''))) = PosInfinity"
proof -
  have "filter amount_char (CHR ''1'' # replicate 309 (CHR ''0''))
      = CHR ''1'' # replicate 309 (CHR ''0'')"
    by (simp add: amount_char_def is_digit_def filter_replicate_zero del: replicate.simps)
  then have "clean_amount (CHR ''1'' # replicate 309 (CHR ''0''))
      = CHR ''1'' # replicate 309 (CHR ''0'')"
    by (simp add: clean_amount_def filter_replicate_zero del: replicate.simps)
  moreover have "to_double (10 ^ 309) = PosInfinity"
    by (rule to_double_overflow) simp
  ultimately show ?thesis
    by (simp add: parseAmount_def number_big or_zero_def truthy_def del: replicate.simps)
qed

text \<open>
  Claim C6, as the spec states it: the result of \<^verbatim>\<open>parseAmount\<close> is always finite. It is
  not: \<^verbatim>\<open>Number\<close> turns a run of 310 digits into \<^verbatim>\<open>Infinity\<close>, which \<^verbatim>\<open>|| 0\<close> lets through.
\<close>

theorem C6_parseAmount_infinite_counterexample:
  "\<not> isFinite (parseAmount (Some (CHR ''1'' # replicate 309 (CHR ''0''))))"
  by (simp add: parseAmount_big)

text \<open>
  Claim C6, amended: \<^verbatim>\<open>parseAmount\<close> returns a Number for every input and never NaN; it
  is 0 for \<^verbatim>\<open>null\<close> and whenever the cleaned-up string does not convert to a number (NaN),
  and otherwise it is the converted value, which is finite or, for a number beyond the
  doubles, an infinity.
\<close>

theorem C6_parseAmount_total:
  "parseAmount s \<noteq> NaN
   \<and> parseAmount None = Num 0
   \<and> parseAmount (Some v) =
       (if number_of_string (clean_amount v) = NaN then Num 0
        else number_of_string (clean_amount v))
   \<and> (isFinite (parseAmount s) \<or> parseAmount s = PosInfinity \<or> parseAmount s = NegInfinity)"
proof -
  have "isFinite (parseAmount s) \<or> parseAmount s = PosInfinity \<or> parseAmount s = NegInfinity"
    using parseAmount_not_NaN [of s] by (cases "parseAmount s") simp_all
  then show ?thesis
    by (simp add: parseAmount_not_NaN) (simp add: parseAmount_def or_zero_cases)
qed

theorem C6_parseAmount_total_witness:
  "parseAmount (Some ''1-2'') \<noteq> NaN
   \<and> number_of_string (clean_amount ''1-2'') = NaN
   \<and> parseAmount (Some ''1-2'') = Num 0"
  using C6_parseAmount_total [of "Some ''1-2''" "''1-2''"]
  by (simp add: number_of_string_def clean_amount_def amount_char_def is_digit_def)

section \<open>Properties of the importer\<close>

text \<open>The test \<^verbatim>\<open>isNaN(parseAmount(...))\<close> never holds, so the loop starts at row 0.\<close>

lemma startIdx_zero: "startIdx tbl = 0"
  by (simp add: startIdx_def isNaN_def parseAmount_not_NaN)

lemma row_txns_not_finite_nonzero:
  assumes "\<not> finite_nonzero (parseAmount (cell r COL_DEBIT))"
  shows "row_txns r = []"
  using assms
  by (cases "parseAmount (cell r COL_DEBIT)") (auto simp: row_txns_def finite_nonzero_def Let_def)

text \<open>
  Claim C7: the transactions imported are those of the rows after row 0 when the amount
  cell of row 0 does not parse to a finite nonzero number, and those of all rows, row 0
  included, otherwise. (The code never skips row 0 by index; a row 0 whose amount is not
  finite and nonzero yields no transaction in the loop.)
\<close>

theorem C7_header_row: "loadCsvText tbl = import_spec tbl"
proof (cases tbl)
  case Nil
  then show ?thesis by (simp add: loadCsvText_def import_spec_def startIdx_zero)
next
  case (Cons r rs)
  show ?thesis
  proof (cases "finite_nonzero (parseAmount (cell r COL_DEBIT))")
    case True
    with Cons show ?thesis by (simp add: loadCsvText_def import_spec_def startIdx_zero)
  next
    case False
    then have "row_txns r = []" by (rule row_txns_not_finite_nonzero)
    with Cons False show ?thesis by (simp add: loadCsvText_def import_spec_def startIdx_zero)
  qed
qed

theorem C7_header_row_witness:
  "loadCsvText [[''a'', ''b'', ''Date'', ''d'', ''e'', ''Amount'', ''g'', ''h'', ''i'', ''Desc''],
                [''a'', ''b'', ''01/02/2024'', ''d'', ''e'', ''8'', ''g'', ''h'', ''i'', ''Shop'']]
   = [\<lparr>date = ''01/02/2024'', amount = 8, description = ''Shop'', category = None\<rparr>]"
  unfolding C7_header_row
  by (simp add: import_spec_def finite_nonzero_def parseAmount_def clean_amount_def
      amount_char_def is_digit_def number_of_string_def or_zero_def truthy_def cell_def
      COL_DEBIT_def COL_DATE_def COL_LONGDESC_def row_txns_def or_empty_def trim_def
      is_space_def dec_value_def digit_val_def sign_apply_def dbl_eval)

section \<open>Properties of the date parser\<close>

lemma days_in_month_bounds: "28 \<le> days_in_month y m" "days_in_month y m \<le> 31"
  by (simp_all add: days_in_month_def)

lemma prev_month_range:
  "0 \<le> m \<Longrightarrow> m \<le> 11 \<Longrightarrow> 0 \<le> snd (prev_month y m) \<and> snd (prev_month y m) \<le> 11"
  by (simp add: prev_month_def)

lemma next_month_range:
  "0 \<le> m \<Longrightarrow> m \<le> 11 \<Longrightarrow> 0 \<le> snd (next_month y m) \<and> snd (next_month y m) \<le> 11"
  by (simp add: next_month_def)

text \<open>Rolling the days over always ends at a date of the calendar.\<close>

lemma roll_days_valid: "0 \<le> m \<Longrightarrow> m \<le> 11 \<Longrightarrow> valid_date (roll_days y m d)"
proof (induction y m d rule: roll_days.induct)
  case (1 y m d)
  show ?case
  proof (cases "d < 1")
    case True
    with 1 show ?thesis
      by (subst roll_days.simps) (simp add: prev_month_range del: roll_days.simps)
  next
    case False
    show ?thesis
    proof (cases "days_in_month y m < d")
      case True
      with False 1 show ?thesis
        by (subst roll_days.simps) (simp add: next_month_range del: roll_days.simps)
    next
      case in_month: False
      with False 1 show ?thesis
        by (subst roll_days.simps) (simp add: valid_date_def del: roll_days.simps)
    qed
  qed
qed

lemma new_Date_valid: "valid_date (new_Date y m d)"
  by (simp add: new_Date_def Let_def roll_days_valid del: roll_days.simps)

lemma valid_date_differs:
  assumes "valid_date d" and "\<not> valid_written y mo da"
  shows "(full_year d, calendar_month d, day_of_month d) \<noteq> (y, mo, da)"
  using assms by (auto simp: valid_date_def valid_written_def calendar_month_def)

lemma match_iso_Nil: "match_iso [] = None"
  by (simp add: match_iso_def digit_run_def)

lemma match_dmy_Nil: "match_dmy [] = None"
  by (simp add: match_dmy_def digit_run_def)

lemma trim_Nil: "trim [] = []"
  by (simp add: trim_def)

lemma parseDateSmart_iso:
  assumes "match_iso (trim s) = Some (g1, g2, g3)"
  shows "parseDateSmart s = Some (new_Date (dec_value g1) (dec_value g2 - 1) (dec_value g3))"
proof -
  from assms have "s \<noteq> []" by (auto simp: trim_Nil match_iso_Nil)
  with assms show ?thesis by (simp add: parseDateSmart_def Let_def)
qed

lemma parseDateSmart_dmy:
  assumes "match_iso (trim s) = None" and "match_dmy (trim s) = Some (g1, g2, g3)"
  shows "parseDateSmart s = Some (new_Date (dec_value g3) (dec_value g2 - 1) (dec_value g1))"
proof -
  from assms have "s \<noteq> []" by (auto simp: trim_Nil match_dmy_Nil)
  with assms show ?thesis by (simp add: parseDateSmart_def Let_def)
qed


lemma parseDateSmart_numeric:
  assumes "numeric_fields s = Some (y, mo, da)"
  shows "parseDateSmart s = Some (new_Date y (mo - 1) da)"
  using assms parseDateSmart_iso [of s] parseDateSmart_dmy [of s]
  by (auto simp: numeric_fields_def split: option.splits)









lemma rollover_fields_example: "numeric_fields ''99/01/2024'' = Some (2024, 1, 99)"
  by code_simp

lemma rollover_date_example:
  "parseDateSmart ''99/01/2024''
     = Some \<lparr>full_year = 2024, month_index = 3, day_of_month = 8\<rparr>"
  by code_simp

text \<open>
  Claim C10, as stated: a numeric date with a field out of range comes back as a date in
  an adjacent month or year. \<^verbatim>\<open>99/01/2024\<close> comes back as 8 April 2024, three months after
  the January it writes and in the same year.
\<close>

theorem C10_adjacent_counterexample:
  "numeric_fields ''99/01/2024'' = Some (2024, 1, 99)
   \<and> \<not> valid_written 2024 1 99
   \<and> parseDateSmart ''99/01/2024''
       = Some \<lparr>full_year = 2024, month_index = 3, day_of_month = 8\<rparr>
   \<and> \<not> adjacent_month_or_year \<lparr>full_year = 2024, month_index = 3, day_of_month = 8\<rparr> 2024 1"
  by (simp add: rollover_fields_example rollover_date_example valid_written_def
      days_in_month_def adjacent_month_or_year_def months_apart_def calendar_month_def)

text \<open>
  Claim C10, amended: a text of the form of pattern 1 or pattern 2 whose month or day is
  outside the calendar is never unparseable; the parser returns \<^verbatim>\<open>new Date\<close> of the
  written numbers, a date of the calendar rolled over into another month or year (not
  always an adjacent one), whose year, month and day are not the written ones.
\<close>

theorem C10_no_range_validation:
  assumes "numeric_fields s = Some (y, mo, da)" and "\<not> valid_written y mo da"
  shows "\<exists>d. parseDateSmart s = Some d \<and> d = new_Date y (mo - 1) da \<and> valid_date d
           \<and> (full_year d, calendar_month d, day_of_month d) \<noteq> (y, mo, da)"
  using parseDateSmart_numeric [OF assms(1)] valid_date_differs [OF new_Date_valid assms(2)]
  by (simp add: new_Date_valid)

lemma feb31_fields_example: "numeric_fields ''31/02/2024'' = Some (2024, 2, 31)"
  by code_simp

lemma feb31_new_Date: "new_Date 2024 1 31 = \<lparr>full_year = 2024, month_index = 2, day_of_month = 2\<rparr>"
  by code_simp

theorem C10_no_range_validation_witness:
  "numeric_fields ''31/02/2024'' = Some (2024, 2, 31) \<and> \<not> valid_written 2024 2 31
   \<and> parseDateSmart ''31/02/2024''
       = Some \<lparr>full_year = 2024, month_index = 2, day_of_month = 2\<rparr>"
proof -
  have invalid: "\<not> valid_written 2024 2 31"
    by (simp add: valid_written_def days_in_month_def leap_year_def)
  from C10_no_range_validation [OF feb31_fields_example invalid]
  show ?thesis by (simp add: feb31_fields_example invalid feb31_new_Date)
qed

section \<open>Properties of the keyword matcher\<close>

lemma matchesKeyword_CAFE_COM: "matchesKeyword ''CAFE.COM'' ''cafe'' = False"
  by code_simp

lemma matchesKeyword_ecafe: "matchesKeyword ''ecafe'' ''cafe'' = False"
  by code_simp

text \<open>
  Claim C4, as the spec states it: the keyword \<^verbatim>\<open>cafe\<close> matches the description
  \<^verbatim>\<open>CAFE.COM\<close> and does not match \<^verbatim>\<open>ecafe\<close>. The code refutes the first half: the full stop
  is a word character, so \<^verbatim>\<open>cafe\<close> is not bounded on its right in \<^verbatim>\<open>cafe.com\<close>.
\<close>

theorem C4_cafe_dot_com_counterexample:
  "\<not> (matchesKeyword ''CAFE.COM'' ''cafe'' \<and> \<not> matchesKeyword ''ecafe'' ''cafe'')"
  by (simp add: matchesKeyword_CAFE_COM)

text \<open>
  Claim C4, amended: the keyword \<^verbatim>\<open>cafe\<close> matches neither \<^verbatim>\<open>CAFE.COM\<close> (no boundary after
  it, the full stop being a word character) nor \<^verbatim>\<open>ecafe\<close> (no boundary before it); it
  does match \<^verbatim>\<open>CAFE COM\<close>, and the keyword \<^verbatim>\<open>cafe.com\<close> matches \<^verbatim>\<open>CAFE.COM\<close>.
\<close>

theorem C4_cafe_boundaries:
  "\<not> matchesKeyword ''CAFE.COM'' ''cafe'' \<and> \<not> matchesKeyword ''ecafe'' ''cafe''
   \<and> matchesKeyword ''CAFE COM'' ''cafe'' \<and> matchesKeyword ''CAFE.COM'' ''cafe.com''"
  by code_simp

section \<open>Properties of the rule engine\<close>


lemma char_lower_not_upper: "\<not> is_upper (char_lower c)"
  by (auto simp: is_upper_def char_lower_def upper_letters_def lower_letters_def split: option.splits)

lemma char_lower_id: "\<not> is_upper c \<Longrightarrow> char_lower c = c"
  by (auto simp: is_upper_def char_lower_def upper_letters_def lower_letters_def split: option.splits)




lemma no_upper_toLowerCase: "no_upper (toLowerCase s)"
  by (simp add: no_upper_def toLowerCase_def char_lower_not_upper)

lemma toLowerCase_id: "no_upper s \<Longrightarrow> toLowerCase s = s"
  by (simp add: no_upper_def toLowerCase_def char_lower_id map_idI)

lemma toLowerCase_idem: "toLowerCase (toLowerCase s) = toLowerCase s"
  by (simp add: toLowerCase_id no_upper_toLowerCase)













lemma first_match_None: "first_match d rs = None \<longleftrightarrow> (\<forall>r \<in> set rs. \<not> matchesKeyword d (keyword r))"
  by (induction rs) auto


lemma categorise_txn_category:
  "category (categorise_txn rules t) =
     Some (case first_match (toLowerCase (description t)) rules of
             None \<Rightarrow> ''UNCATEGORISED''
           | Some c \<Rightarrow>
               if c = [] then ''UNCATEGORISED''
               else if toUpperCase c = ''PETROL'' \<and> \<bar>amount t\<bar> \<le> 2 then ''COFFEE'' else c)"
  by (simp add: categorise_txn_def Let_def split: option.splits)

lemma ex_match_petrol: "matchesKeyword ''petrol station #4'' ''petrol''" by code_simp
lemma ex_no_match_woolworths: "\<not> matchesKeyword ''petrol station #4'' ''woolworths''" by code_simp
lemma ex_lower: "toLowerCase ''PETROL STATION #4'' = ''petrol station #4''" by code_simp
lemma ex_upper: "toUpperCase ''PETROL'' = ''PETROL''" by code_simp
lemma ex_no_match_mystery: "\<not> matchesKeyword ''corner shop'' ''woolworths'' \<and> \<not> matchesKeyword ''corner shop'' ''petrol''" by code_simp
lemma ex_lower2: "toLowerCase ''Corner Shop'' = ''corner shop''" by code_simp







text \<open>
  Claim C2: when the category of the first matching rule is \<^verbatim>\<open>PETROL\<close> in any case of
  letters and the absolute amount is at most 2, the category assigned is \<^verbatim>\<open>COFFEE\<close>; the
  sign of the amount plays no part; and every other matched category (non-empty, as
  \<^verbatim>\<open>parseRules\<close> makes it) is assigned as it is.
\<close>

theorem C2_petrol_override:
  "(first_match (toLowerCase (description t)) rules = Some c
      \<and> toUpperCase c = ''PETROL'' \<and> \<bar>amount t\<bar> \<le> 2
      \<longrightarrow> category (categorise_txn rules t) = Some ''COFFEE'')
   \<and> (first_match (toLowerCase (description t)) rules = Some c \<and> c \<noteq> []
      \<and> \<not> (toUpperCase c = ''PETROL'' \<and> \<bar>amount t\<bar> \<le> 2)
      \<longrightarrow> category (categorise_txn rules t) = Some c)
   \<and> category (categorise_txn rules (t\<lparr>amount := - amount t\<rparr>)) = category (categorise_txn rules t)"
proof -
  have "c \<noteq> []" if "toUpperCase c = ''PETROL''"
    using that by (auto simp: toUpperCase_def)
  moreover have "category (categorise_txn rules (t\<lparr>amount := - amount t\<rparr>))
      = category (categorise_txn rules t)"
    by (simp add: categorise_txn_category split: option.splits)
  ultimately show ?thesis
    by (auto simp: categorise_txn_category)
qed

theorem C2_petrol_override_witness:
  "category (categorise_txn ex_rules (ex_txn (- (3 / 2)) ''PETROL STATION #4'')) = Some ''COFFEE''
   \<and> category (categorise_txn ex_rules (ex_txn (3 / 2) ''PETROL STATION #4'')) = Some ''COFFEE''
   \<and> category (categorise_txn ex_rules (ex_txn 50 ''PETROL STATION #4'')) = Some ''PETROL''"
proof -
  have fm: "first_match (toLowerCase (description (ex_txn a ''PETROL STATION #4''))) ex_rules = Some ''PETROL''" for a
    by (simp add: ex_rules_def ex_txn_def ex_lower ex_match_petrol ex_no_match_woolworths)
  from C2_petrol_override [of "ex_txn (- (3 / 2)) ''PETROL STATION #4''" ex_rules "''PETROL''"] fm
  have "category (categorise_txn ex_rules (ex_txn (- (3 / 2)) ''PETROL STATION #4'')) = Some ''COFFEE''"
    by (simp add: ex_upper) (simp add: ex_txn_def)
  moreover from C2_petrol_override [of "ex_txn (3 / 2) ''PETROL STATION #4''" ex_rules "''PETROL''"] fm
  have "category (categorise_txn ex_rules (ex_txn (3 / 2) ''PETROL STATION #4'')) = Some ''COFFEE''"
    by (simp add: ex_upper) (simp add: ex_txn_def)
  moreover from C2_petrol_override [of "ex_txn 50 ''PETROL STATION #4''" ex_rules "''PETROL''"] fm
  have "category (categorise_txn ex_rules (ex_txn 50 ''PETROL STATION #4'')) = Some ''PETROL''"
    by (simp add: ex_upper) (simp add: ex_txn_def)
  ultimately show ?thesis by simp
qed

text \<open>
  Claim C3, as the spec states it: after \<^verbatim>\<open>categorise\<close> a transaction that no rule matched
  has an empty or absent stored category. The code stores the string \<^verbatim>\<open>UNCATEGORISED\<close>.
\<close>

theorem C3_stored_sentinel_counterexample:
  "first_match (toLowerCase (description (ex_txn 50 ''Corner Shop''))) ex_rules = None
   \<and> \<not> (category (categorise_txn ex_rules (ex_txn 50 ''Corner Shop'')) = None
        \<or> category (categorise_txn ex_rules (ex_txn 50 ''Corner Shop'')) = Some [])"
proof -
  have "first_match (toLowerCase (description (ex_txn 50 ''Corner Shop''))) ex_rules = None"
    using ex_no_match_mystery by (simp add: first_match_None ex_rules_def ex_txn_def ex_lower2)
  then show ?thesis by (simp add: categorise_txn_category)
qed

lemma toUpperCase_UNCATEGORISED: "toUpperCase ''UNCATEGORISED'' = ''UNCATEGORISED''"
  by code_simp

text \<open>
  Claim C3, amended: \<^verbatim>\<open>categorise\<close> writes the string \<^verbatim>\<open>UNCATEGORISED\<close> into the stored
  category of a transaction that no rule matched, and after it no stored category is
  absent or empty; display and aggregation read an absent or empty category as
  \<^verbatim>\<open>UNCATEGORISED\<close> as well.
\<close>

theorem C3_unmatched_stored:
  "(first_match (toLowerCase (description t)) rules = None
      \<longrightarrow> category (categorise_txn rules t) = Some ''UNCATEGORISED''
          \<and> effective_category (categorise_txn rules t) = ''UNCATEGORISED'')
   \<and> category (categorise_txn rules t) \<noteq> None
   \<and> category (categorise_txn rules t) \<noteq> Some []
   \<and> effective_category (t\<lparr>category := None\<rparr>) = ''UNCATEGORISED''
   \<and> effective_category (t\<lparr>category := Some []\<rparr>) = ''UNCATEGORISED''"
  by (auto simp: categorise_txn_category effective_category_def toUpperCase_UNCATEGORISED
      split: option.splits)

theorem C3_unmatched_stored_witness:
  "first_match (toLowerCase (description (ex_txn 50 ''Corner Shop''))) ex_rules = None
   \<and> category (categorise_txn ex_rules (ex_txn 50 ''Corner Shop'')) = Some ''UNCATEGORISED''"
proof -
  have "first_match (toLowerCase (description (ex_txn 50 ''Corner Shop''))) ex_rules = None"
    using ex_no_match_mystery by (simp add: first_match_None ex_rules_def ex_txn_def ex_lower2)
  with C3_unmatched_stored [of "ex_txn 50 ''Corner Shop''" ex_rules] show ?thesis by simp
qed

text \<open>
  The example of the specification from end to end: with the rules text below, a purchase
  of 1.50 described as \<^verbatim>\<open>PETROL STATION #4\<close> is categorised \<^verbatim>\<open>COFFEE\<close>.
\<close>

lemma parseRules_example:
  "parseRules ''woolworths => GROCERIES\<newline>petrol => PETROL'' = ex_rules"
  by code_simp

lemma end_to_end_example:
  "categorise [ex_txn (3 / 2) ''PETROL STATION #4'']
     (parseRules ''woolworths => GROCERIES\<newline>petrol => PETROL'')
   = [(ex_txn (3 / 2) ''PETROL STATION #4'')\<lparr>category := Some ''COFFEE''\<rparr>]"
proof -
  have "first_match ''petrol station #4'' ex_rules = Some ''PETROL''"
    by (simp add: ex_rules_def ex_match_petrol ex_no_match_woolworths)
  then show ?thesis
    by (simp add: parseRules_example categorise_def categorise_txn_def Let_def ex_txn_def
        ex_lower ex_upper)
qed

text \<open>The rules that \<^verbatim>\<open>parseRules\<close> returns have a keyword and a category.\<close>

lemma parseRules_nonempty:
  assumes "r \<in> set (parseRules text)"
  shows "keyword r \<noteq> [] \<and> rule_category r \<noteq> []"
proof -
  from assms obtain l where "r \<in> set (line_rules l)"
    by (auto simp: parseRules_def)
  then show ?thesis
    by (auto simp: line_rules_def Let_def split: if_splits)
qed

section \<open>Properties of the rule upsert\<close>

lemma split_lines_not_Nil: "split_lines s \<noteq> []"
  by (induction s rule: split_lines.induct) (auto split: list.splits)
























section \<open>Properties of the aggregator\<close>

lemma exact_sums_iff: "exact_sums xs \<longleftrightarrow> (\<forall>ys. subseq ys xs \<longrightarrow> representable (sum_list ys))"
  by (auto simp: exact_sums_def list_all_iff)

lemma exact_sums_butlast:
  assumes "exact_sums (xs @ [x])"
  shows "exact_sums xs"
proof -
  have "subseq ys (xs @ [x])" if "subseq ys xs" for ys
    using that by (simp add: list_emb_append_mono [of _ ys xs "[]" "[x]", simplified])
  with assms show ?thesis by (simp add: exact_sums_iff)
qed

lemma exact_filter:
  assumes "exact_sums (map amount ts)"
  shows "representable (sum_list (map amount (filter P ts)))"
proof -
  have "subseq (map amount (filter P ts)) (map amount ts)"
    by (intro subseq_map subseq_filter_left)
  with assms show ?thesis by (simp add: exact_sums_iff)
qed

lemma or_zero_Num: "or_zero (Num a) = Num a"
  by (simp add: or_zero_def truthy_def)

lemma byCat_add_keys:
  "map fst (byCat_add m c a) = (if c \<in> set (map fst m) then map fst m else map fst m @ [c])"
  by (induction m c a rule: byCat_add.induct) auto

lemma map_of_byCat_add:
  "map_of (byCat_add m c a) =
     (map_of m)(c \<mapsto> js_add (or_zero (case map_of m c of None \<Rightarrow> Num 0 | Some v \<Rightarrow> v)) (Num a))"
  by (induction m c a rule: byCat_add.induct) (auto simp: or_zero_Num)

lemma category_sum_absent:
  assumes "c \<notin> effective_category ` set ts"
  shows "category_sum c ts = 0"
proof -
  from assms have "filter (\<lambda>t. effective_category t = c) ts = []"
    by (auto simp: filter_empty_conv)
  then show ?thesis by (simp add: category_sum_def)
qed

lemma category_sum_snoc:
  "category_sum c (ts @ [t]) =
     (if effective_category t = c then category_sum c ts + amount t else category_sum c ts)"
  by (simp add: category_sum_def)

lemma byCat_ok_step:
  assumes ok: "byCat_ok m ts"
    and rep: "representable (category_sum (effective_category t) (ts @ [t]))"
  shows "byCat_ok (byCat_add m (effective_category t) (amount t)) (ts @ [t])"
proof -
  let ?c = "effective_category t"
  from ok have dist: "distinct (map fst m)"
    and look: "\<And>c. map_of m c = (if c \<in> effective_category ` set ts
                            then Some (Num (category_sum c ts)) else None)"
    by (simp_all add: byCat_ok_def)
  have prev: "(case map_of m ?c of None \<Rightarrow> Num 0 | Some v \<Rightarrow> v) = Num (category_sum ?c ts)"
    by (simp add: look category_sum_absent)
  have new: "js_add (or_zero (Num (category_sum ?c ts))) (Num (amount t))
      = Num (category_sum ?c (ts @ [t]))"
    using rep by (simp add: or_zero_Num representable_def category_sum_snoc)
  have keys: "?c \<in> set (map fst m) \<longleftrightarrow> ?c \<in> effective_category ` set ts"
    using look [of ?c] by (metis map_of_eq_None_iff option.distinct(1) set_map)
  have "distinct (map fst (byCat_add m ?c (amount t)))"
    using dist keys by (simp add: byCat_add_keys)
  moreover have upd: "map_of (byCat_add m ?c (amount t))
      = (map_of m)(?c \<mapsto> Num (category_sum ?c (ts @ [t])))"
    by (simp only: map_of_byCat_add prev new)
  have "map_of (byCat_add m ?c (amount t)) c =
      (if c \<in> effective_category ` set (ts @ [t])
       then Some (Num (category_sum c (ts @ [t]))) else None)" for c
    by (simp add: upd look category_sum_snoc)
  ultimately show ?thesis by (simp add: byCat_ok_def)
qed

lemma byCat_of_snoc:
  "byCat_of (ts @ [t]) = byCat_add (byCat_of ts) (effective_category t) (amount t)"
  by (simp add: byCat_of_def)

lemma byCat_of_ok:
  "exact_sums (map amount ts) \<Longrightarrow> byCat_ok (byCat_of ts) ts"
proof (induction ts rule: rev_induct)
  case Nil
  then show ?case by (simp add: byCat_of_def byCat_ok_def)
next
  case (snoc t ts)
  from snoc.prems have "exact_sums (map amount ts)"
    by (simp add: exact_sums_butlast)
  with snoc.IH have "byCat_ok (byCat_of ts) ts" by simp
  moreover have "representable (category_sum (effective_category t) (ts @ [t]))"
    unfolding category_sum_def by (rule exact_filter [OF snoc.prems])
  ultimately show ?case
    unfolding byCat_of_snoc by (rule byCat_ok_step)
qed

lemma set_insert_row: "set (insert_row x ys) = insert x (set ys)"
  by (induction ys) auto

lemma set_sort_rows: "set (sort_rows xs) = set xs"
  by (induction xs) (simp_all add: sort_rows_def set_insert_row)

lemma distinct_insert_row:
  "distinct (map fst (insert_row x ys)) \<longleftrightarrow> fst x \<notin> fst ` set ys \<and> distinct (map fst ys)"
  by (induction ys) (auto simp: set_insert_row)

lemma distinct_sort_rows: "distinct (map fst (sort_rows xs)) \<longleftrightarrow> distinct (map fst xs)"
  by (induction xs) (simp_all add: sort_rows_def distinct_insert_row set_sort_rows [unfolded sort_rows_def])

lemma byCat_ok_rows:
  assumes "byCat_ok m ts" and "set rs = set m" and "distinct (map fst rs)"
  shows "rows_ok rs ts"
proof -
  from assms(1) have dist: "distinct (map fst m)"
    and look: "\<And>c. map_of m c = (if c \<in> effective_category ` set ts
                            then Some (Num (category_sum c ts)) else None)"
    by (simp_all add: byCat_ok_def)
  have "snd r = Num (category_sum (fst r) ts) \<and> fst r \<in> effective_category ` set ts"
    if "r \<in> set rs" for r
  proof -
    from that assms(2) have "(fst r, snd r) \<in> set m" by simp
    with dist have "map_of m (fst r) = Some (snd r)" by simp
    with look [of "fst r"] show ?thesis by (auto split: if_splits)
  qed
  moreover have "c \<in> fst ` set rs" if "c \<in> effective_category ` set ts" for c
  proof -
    from that look [of c] have "map_of m c = Some (Num (category_sum c ts))" by simp
    then have "(c, Num (category_sum c ts)) \<in> set m" by (rule map_of_SomeD)
    with assms(2) show ?thesis by force
  qed
  ultimately show ?thesis
    using assms(3) by (auto simp: rows_ok_def list_all_iff)
qed

lemma categories_sum_Nil: "categories_sum [] ts = 0"
  by (simp add: categories_sum_def)

lemma categories_sum_snoc:
  "k \<notin> set ks \<Longrightarrow> categories_sum (ks @ [k]) ts = categories_sum ks ts + category_sum k ts"
  by (induction ts) (auto simp: categories_sum_def category_sum_def)

lemma categories_sum_all:
  assumes "effective_category ` set ts \<subseteq> set ks"
  shows "categories_sum ks ts = sum_list (map amount ts)"
proof -
  from assms have "filter (\<lambda>t. effective_category t \<in> set ks) ts = ts"
    by (auto simp: filter_id_conv)
  then show ?thesis by (simp add: categories_sum_def)
qed

lemma grand_fold:
  assumes "exact_sums (map amount ts)"
  shows "distinct (map fst rs) \<Longrightarrow> list_all (\<lambda>r. snd r = Num (category_sum (fst r) ts)) rs
    \<Longrightarrow> foldl (\<lambda>acc r. js_add acc (snd r)) (Num 0) rs = Num (categories_sum (map fst rs) ts)"
proof (induction rs rule: rev_induct)
  case Nil
  then show ?case by (simp add: categories_sum_Nil)
next
  case (snoc r rs)
  then have IH: "foldl (\<lambda>acc r. js_add acc (snd r)) (Num 0) rs = Num (categories_sum (map fst rs) ts)"
    and r: "snd r = Num (category_sum (fst r) ts)" and new: "fst r \<notin> set (map fst rs)"
    by simp_all
  have "representable (categories_sum (map fst rs @ [fst r]) ts)"
    unfolding categories_sum_def by (rule exact_filter [OF assms])
  then have "js_add (Num (categories_sum (map fst rs) ts)) (Num (category_sum (fst r) ts))
      = Num (categories_sum (map fst rs @ [fst r]) ts)"
    by (simp add: categories_sum_snoc [OF new] representable_def)
  then show ?case by (simp add: IH r)
qed

lemma row_totals_sum:
  "distinct (map fst rs) \<Longrightarrow> list_all (\<lambda>r. snd r = Num (category_sum (fst r) ts)) rs
    \<Longrightarrow> sum_list (map (\<lambda>r. num_value (snd r)) rs) = categories_sum (map fst rs) ts"
proof (induction rs rule: rev_induct)
  case Nil
  then show ?case by (simp add: categories_sum_Nil)
next
  case (snoc r rs)
  then show ?case by (simp add: categories_sum_snoc)
qed

lemma sum_list_scaled:
  "sum_list (map (\<lambda>r. f r / c * 100) rs) = sum_list (map f rs) / c * (100::rat)"
  by (induction rs) (simp_all add: add_divide_distrib distrib_right)

lemma pct_zero: "pct (Num 0) v = Num 0"
  by (simp add: pct_def truthy_def)

text \<open>Without rounding, the rows and the grand total are exact.\<close>

lemma totals_exact:
  assumes "exact_sums (map amount txns)"
  shows "list_all (\<lambda>r. isFinite (snd r)) (rows (computeCategoryTotals txns))
    \<and> sum_list (map (\<lambda>r. num_value (snd r)) (rows (computeCategoryTotals txns)))
        = sum_list (map amount txns)
    \<and> grand (computeCategoryTotals txns) = Num (sum_list (map amount txns))"
proof -
  define rs where "rs = sort_rows (byCat_of txns)"
  define total where "total = sum_list (map amount txns)"
  have T: "computeCategoryTotals txns
      = \<lparr>rows = rs, grand = foldl (\<lambda>acc r. js_add acc (snd r)) (Num 0) rs\<rparr>"
    by (simp add: computeCategoryTotals_def Let_def rs_def)
  have "byCat_ok (byCat_of txns) txns" by (rule byCat_of_ok [OF assms])
  moreover from this have "distinct (map fst rs)"
    by (simp add: rs_def distinct_sort_rows byCat_ok_def)
  ultimately have ok: "rows_ok rs txns"
    by (intro byCat_ok_rows) (simp_all add: rs_def set_sort_rows)
  then have dist: "distinct (map fst rs)"
    and vals: "list_all (\<lambda>r. snd r = Num (category_sum (fst r) txns)) rs"
    and keys: "effective_category ` set txns \<subseteq> set (map fst rs)"
    by (simp_all add: rows_ok_def)
  have all: "categories_sum (map fst rs) txns = total"
    unfolding total_def by (rule categories_sum_all [OF keys])
  have g: "foldl (\<lambda>acc r. js_add acc (snd r)) (Num 0) rs = Num total"
    using grand_fold [OF assms dist vals] by (simp add: all)
  have s: "sum_list (map (\<lambda>r. num_value (snd r)) rs) = total"
    using row_totals_sum [OF dist vals] by (simp add: all)
  have fin: "list_all (\<lambda>r. isFinite (snd r)) rs"
    using vals by (auto simp: list_all_iff)
  show ?thesis
    unfolding T total_def [symmetric] using fin s g by simp
qed

lemma unit_roundoff_nonneg: "0 \<le> unit_roundoff"
  by (simp add: unit_roundoff_def)

lemma least_normal_pos: "0 < least_normal"
  by (simp add: least_normal_def)

lemma growth_ge_1: "1 \<le> (1 + unit_roundoff) ^ k"
  by (rule one_le_power) (simp add: unit_roundoff_def)

lemma growth_mono: "j \<le> k \<Longrightarrow> (1 + unit_roundoff) ^ j \<le> (1 + unit_roundoff) ^ k"
  by (rule power_increasing) (simp_all add: unit_roundoff_def)

lemma abs_sum_nonneg: "0 \<le> abs_sum xs"
  unfolding abs_sum_def by (rule sum_list_nonneg) auto

lemma rounding_bound_mono:
  assumes "j \<le> k" and "0 \<le> v" and "v \<le> w"
  shows "rounding_bound j v \<le> rounding_bound k w"
  unfolding rounding_bound_def
  using growth_mono [OF assms(1)] growth_ge_1 [of j] assms(2,3) by (intro mult_mono) simp_all

lemma rounding_bound_nonneg: "0 \<le> w \<Longrightarrow> 0 \<le> rounding_bound k w"
  unfolding rounding_bound_def using growth_ge_1 [of k] by simp

text \<open>
  Additions one after another from \<open>s0\<close>, each rounded: while the magnitudes stay in range
  the result is finite, and it is within \<open>length xs\<close> roundings of the exact sum.
\<close>

lemma seq_sum:
  fixes f :: "jsnum \<Rightarrow> 'a \<Rightarrow> jsnum" and val :: "'a \<Rightarrow> rat"
  assumes step: "\<And>s x. x \<in> set xs \<Longrightarrow> f (Num s) x = to_double (s + val x)"
    and range: "(1 + unit_roundoff) ^ length xs * (\<bar>s0\<bar> + least_normal + abs_sum (map val xs)) \<le> 2 ^ 1023"
  shows "\<exists>s. foldl f (Num s0) xs = Num s
    \<and> \<bar>s - (s0 + sum_list (map val xs))\<bar>
        \<le> rounding_bound (length xs) (\<bar>s0\<bar> + least_normal + abs_sum (map val xs))
    \<and> \<bar>s\<bar> + least_normal
        \<le> (1 + unit_roundoff) ^ length xs * (\<bar>s0\<bar> + least_normal + abs_sum (map val xs))"
  using assms
proof (induction xs arbitrary: s0)
  case Nil
  then show ?case by (simp add: rounding_bound_def abs_sum_def)
next
  case (Cons x xs)
  define u where "u = unit_roundoff"
  define c where "c = least_normal"
  define P where "P = (1 + u) ^ length xs"
  define A where "A = abs_sum (map val xs)"
  define B where "B = \<bar>s0\<bar> + \<bar>val x\<bar> + c"
  define W where "W = \<bar>s0\<bar> + c + abs_sum (map val (x # xs))"
  have u0: "0 \<le> u" and c0: "0 < c" and P1: "1 \<le> P" and A0: "0 \<le> A"
    by (simp_all add: u_def c_def P_def A_def unit_roundoff_nonneg least_normal_pos
        growth_ge_1 abs_sum_nonneg)
  have W_eq: "W = B + A" by (simp add: W_def B_def A_def abs_sum_def)
  have B0: "0 \<le> B" using c0 by (simp add: B_def)
  have W0: "0 \<le> W" using B0 A0 by (simp add: W_eq)
  from Cons.prems(2) have range: "(1 + u) * P * W \<le> 2 ^ 1023"
    by (simp add: u_def P_def W_def c_def mult.assoc)
  have "1 * 1 \<le> (1 + u) * P" using u0 P1 by (intro mult_mono) simp_all
  then have uP1: "1 \<le> (1 + u) * P" by simp
  have "W \<le> 1 * W" by simp
  also have "\<dots> \<le> ((1 + u) * P) * W"
    using uP1 W0 by (intro mult_right_mono) simp_all
  also note range
  finally have W_small: "W \<le> 2 ^ 1023" .
  have "\<bar>s0 + val x\<bar> \<le> B" using c0 by (simp add: B_def)
  also have "B \<le> W" using A0 by (simp add: W_eq)
  also note W_small
  finally have "\<exists>r. to_double (s0 + val x) = Num r" by (rule to_double_finite)
  then obtain s1 where s1: "to_double (s0 + val x) = Num s1" ..
  from to_double_error [OF s1] have "\<bar>s1 - (s0 + val x)\<bar> \<le> u * \<bar>s0 + val x\<bar> + u * c"
    by (simp add: u_def c_def)
  also have "\<dots> \<le> u * (\<bar>s0\<bar> + \<bar>val x\<bar>) + u * c"
    using u0 by (intro add_right_mono mult_left_mono) simp_all
  also have "\<dots> = u * B" by (simp add: B_def algebra_simps)
  finally have e1: "\<bar>s1 - (s0 + val x)\<bar> \<le> u * B" .
  then have s1_bound: "\<bar>s1\<bar> + c \<le> (1 + u) * B" by (simp add: B_def algebra_simps)
  define W' where "W' = \<bar>s1\<bar> + c + A"
  have "W' \<le> (1 + u) * B + 1 * A" using s1_bound by (simp add: W'_def)
  also have "\<dots> \<le> (1 + u) * B + (1 + u) * A"
    using u0 A0 by (intro add_left_mono mult_right_mono) simp_all
  finally have W'_le: "W' \<le> (1 + u) * W" by (simp add: W_eq algebra_simps)
  have W'0: "0 \<le> W'" using c0 A0 by (simp add: W'_def)
  have PW': "P * W' \<le> P * ((1 + u) * W)"
    using P1 W'_le by (intro mult_left_mono) simp_all
  then have "P * W' \<le> 2 ^ 1023" using range by (simp add: mult.assoc mult.left_commute)
  then have "(1 + unit_roundoff) ^ length xs * (\<bar>s1\<bar> + least_normal + abs_sum (map val xs)) \<le> 2 ^ 1023"
    by (simp add: P_def u_def W'_def c_def A_def)
  with Cons.IH [of s1] Cons.prems(1)
  obtain s where fold: "foldl f (Num s1) xs = Num s"
    and err: "\<bar>s - (s1 + sum_list (map val xs))\<bar> \<le> (P - 1) * W'"
    and mag: "\<bar>s\<bar> + c \<le> P * W'"
    by (auto simp: rounding_bound_def P_def u_def W'_def c_def A_def)
  have "(P - 1) * W' \<le> (P - 1) * ((1 + u) * W)"
    using P1 W'_le by (intro mult_left_mono) simp_all
  with err have err': "\<bar>s - (s1 + sum_list (map val xs))\<bar> \<le> (P - 1) * ((1 + u) * W)" by simp
  have "u * B \<le> u * W" using u0 A0 by (intro mult_left_mono) (simp_all add: W_eq)
  with e1 have e1': "\<bar>s1 - (s0 + val x)\<bar> \<le> u * W" by simp
  have "\<bar>s - (s0 + sum_list (map val (x # xs)))\<bar>
      \<le> \<bar>s - (s1 + sum_list (map val xs))\<bar> + \<bar>s1 - (s0 + val x)\<bar>"
    by simp
  also have "\<dots> \<le> (P - 1) * ((1 + u) * W) + u * W" using err' e1' by simp
  also have "\<dots> = ((1 + u) * P - 1) * W" by (simp add: algebra_simps)
  finally have final_err: "\<bar>s - (s0 + sum_list (map val (x # xs)))\<bar> \<le> ((1 + u) * P - 1) * W" .
  from mag PW' have final_mag: "\<bar>s\<bar> + c \<le> (1 + u) * P * W" by (simp add: mult.assoc mult.left_commute)
  have "foldl f (Num s0) (x # xs) = Num s"
    using Cons.prems(1) [of x s0] s1 fold by simp
  with final_err final_mag show ?case
    by (simp add: rounding_bound_def P_def u_def W_def c_def)
qed

lemma growth_times: "(1 + unit_roundoff) ^ k * (1 - of_nat k * unit_roundoff) \<le> 1"
proof (induction k)
  case 0
  then show ?case by simp
next
  case (Suc k)
  define u where "u = unit_roundoff"
  have u0: "0 \<le> u" by (simp add: u_def unit_roundoff_nonneg)
  have "0 \<le> of_nat (Suc k) * (u * u)" using u0 by simp
  then have "(1 + u) * (1 - of_nat (Suc k) * u) \<le> 1 - of_nat k * u"
    by (simp add: algebra_simps)
  then have "(1 + u) ^ k * ((1 + u) * (1 - of_nat (Suc k) * u))
      \<le> (1 + u) ^ k * (1 - of_nat k * u)"
    using u0 by (intro mult_left_mono) simp_all
  with Suc show ?case by (simp add: u_def mult.assoc mult.left_commute)
qed

lemma growth_le_2:
  assumes "k \<le> 2 ^ 52"
  shows "(1 + unit_roundoff) ^ k \<le> 2"
proof -
  define P where "P = (1 + unit_roundoff) ^ k"
  have P0: "0 \<le> P" using growth_ge_1 [of k] by (simp add: P_def)
  from assms have "rat_of_nat k \<le> rat_of_nat (2 ^ 52)" by (simp only: of_nat_le_iff)
  then have "rat_of_nat k * unit_roundoff \<le> 1 / 2" by (simp add: unit_roundoff_def)
  then have "P * (1 / 2) \<le> P * (1 - rat_of_nat k * unit_roundoff)"
    using P0 by (intro mult_left_mono) simp_all
  also have "\<dots> \<le> 1" unfolding P_def by (rule growth_times)
  finally show ?thesis by (simp add: P_def)
qed

lemma in_range_growth:
  assumes "in_range xs"
  shows "(1 + unit_roundoff) ^ (2 * length xs)
      * (abs_sum xs + of_nat (length xs) * least_normal) \<le> 2 ^ 1023"
proof -
  from assms have len: "length xs \<le> 2 ^ 51" and mag: "abs_sum xs \<le> 2 ^ 1021"
    by (simp_all add: in_range_def)
  from len have "2 * length xs \<le> 2 ^ 52" by simp
  then have grow: "(1 + unit_roundoff) ^ (2 * length xs) \<le> 2" by (rule growth_le_2)
  from len have "rat_of_nat (length xs) \<le> rat_of_nat (2 ^ 51)" by (simp only: of_nat_le_iff)
  then have "rat_of_nat (length xs) * least_normal \<le> 1" by (simp add: least_normal_def)
  also have "\<dots> \<le> (2::rat) ^ 1021" by simp
  finally have "abs_sum xs + rat_of_nat (length xs) * least_normal \<le> 2 ^ 1021 + 2 ^ 1021"
    using mag by simp
  then have sum: "abs_sum xs + rat_of_nat (length xs) * least_normal \<le> 2 ^ 1022" by simp
  have "0 \<le> abs_sum xs + rat_of_nat (length xs) * least_normal"
    using abs_sum_nonneg [of xs] least_normal_pos by simp
  with grow sum have "(1 + unit_roundoff) ^ (2 * length xs)
      * (abs_sum xs + of_nat (length xs) * least_normal) \<le> 2 * 2 ^ 1022"
    by (intro mult_mono) simp_all
  then show ?thesis by simp
qed

text \<open>
  The entries of \<^verbatim>\<open>byCat\<close>, with or without rounding: one entry for each category, holding
  its running total.
\<close>

lemma category_total_snoc:
  "category_total c (ts @ [t]) =
     (if effective_category t = c then js_add (or_zero (category_total c ts)) (Num (amount t))
      else category_total c ts)"
  by (simp add: category_total_def cat_amounts_def)

lemma category_total_absent:
  assumes "c \<notin> effective_category ` set ts"
  shows "category_total c ts = Num 0"
proof -
  from assms have "filter (\<lambda>t. effective_category t = c) ts = []"
    by (auto simp: filter_empty_conv)
  then show ?thesis by (simp add: category_total_def cat_amounts_def)
qed

lemma byCat_of_lookup:
  "distinct (map fst (byCat_of ts))
   \<and> (\<forall>c. map_of (byCat_of ts) c =
          (if c \<in> effective_category ` set ts then Some (category_total c ts) else None))"
proof (induction ts rule: rev_induct)
  case Nil
  then show ?case by (simp add: byCat_of_def)
next
  case (snoc t ts)
  let ?c = "effective_category t"
  let ?m = "byCat_of ts"
  from snoc have dist: "distinct (map fst ?m)"
    and look: "\<And>c. map_of ?m c =
      (if c \<in> effective_category ` set ts then Some (category_total c ts) else None)"
    by simp_all
  have prev: "(case map_of ?m ?c of None \<Rightarrow> Num 0 | Some v \<Rightarrow> v) = category_total ?c ts"
    by (simp add: look category_total_absent)
  have keys: "?c \<in> set (map fst ?m) \<longleftrightarrow> ?c \<in> effective_category ` set ts"
    using look [of ?c] by (metis map_of_eq_None_iff option.distinct(1) set_map)
  have "distinct (map fst (byCat_add ?m ?c (amount t)))"
    using dist keys by (simp add: byCat_add_keys)
  moreover have upd: "map_of (byCat_add ?m ?c (amount t))
      = (map_of ?m)(?c \<mapsto> js_add (or_zero (category_total ?c ts)) (Num (amount t)))"
    by (simp only: map_of_byCat_add prev)
  have "map_of (byCat_add ?m ?c (amount t)) c =
      (if c \<in> effective_category ` set (ts @ [t])
       then Some (category_total c (ts @ [t])) else None)" for c
    by (simp add: upd look category_total_snoc)
  ultimately show ?case by (simp add: byCat_of_snoc)
qed

lemma rows_lookup:
  "distinct (map fst (rows (computeCategoryTotals ts)))"
  "set (map fst (rows (computeCategoryTotals ts))) = effective_category ` set ts"
  "r \<in> set (rows (computeCategoryTotals ts)) \<Longrightarrow> snd r = category_total (fst r) ts"
proof -
  let ?m = "byCat_of ts"
  have R: "rows (computeCategoryTotals ts) = sort_rows ?m"
    by (simp add: computeCategoryTotals_def Let_def)
  from byCat_of_lookup [of ts] have dist: "distinct (map fst ?m)"
    and look: "\<And>c. map_of ?m c =
      (if c \<in> effective_category ` set ts then Some (category_total c ts) else None)"
    by simp_all
  show "distinct (map fst (rows (computeCategoryTotals ts)))"
    by (simp add: R distinct_sort_rows dist)
  have mem: "snd r = category_total (fst r) ts \<and> fst r \<in> effective_category ` set ts"
    if "r \<in> set ?m" for r
  proof -
    from that have "(fst r, snd r) \<in> set ?m" by simp
    with dist have "map_of ?m (fst r) = Some (snd r)" by simp
    with look [of "fst r"] show ?thesis by (auto split: if_splits)
  qed
  have "c \<in> fst ` set ?m" if "c \<in> effective_category ` set ts" for c
  proof -
    from that look [of c] have "map_of ?m c = Some (category_total c ts)" by simp
    then have "(c, category_total c ts) \<in> set ?m" by (rule map_of_SomeD)
    then show ?thesis by force
  qed
  with mem show "set (map fst (rows (computeCategoryTotals ts))) = effective_category ` set ts"
    by (auto simp: R set_sort_rows)
  show "snd r = category_total (fst r) ts" if "r \<in> set (rows (computeCategoryTotals ts))"
    using that mem by (simp add: R set_sort_rows)
qed

lemma rows_length: "length (rows (computeCategoryTotals ts)) \<le> length ts"
proof -
  have "length (rows (computeCategoryTotals ts)) = length (map fst (rows (computeCategoryTotals ts)))"
    by simp
  also have "\<dots> = card (set (map fst (rows (computeCategoryTotals ts))))"
    by (rule distinct_card [symmetric]) (rule rows_lookup)
  also have "\<dots> = card (effective_category ` set ts)" by (simp only: rows_lookup)
  also have "\<dots> \<le> card (set ts)" by (rule card_image_le) simp
  also have "\<dots> \<le> length ts" by (rule card_length)
  finally show ?thesis .
qed

text \<open>A sum over all transactions, taken category by category.\<close>

lemma sum_list_delta_absent:
  "c \<notin> set ks \<Longrightarrow> (\<Sum>k\<leftarrow>ks. if c = k then a else 0) = (0::rat)"
  by (induction ks) auto

lemma sum_list_delta:
  "distinct ks \<Longrightarrow> c \<in> set ks \<Longrightarrow> (\<Sum>k\<leftarrow>ks. if c = k then a else 0) = (a::rat)"
  by (induction ks) (auto simp: sum_list_delta_absent)

lemma sum_over_categories:
  fixes h :: "txn \<Rightarrow> rat"
  assumes "distinct ks" and "effective_category ` set ts \<subseteq> set ks"
  shows "(\<Sum>k\<leftarrow>ks. sum_list (map h (filter (\<lambda>t. effective_category t = k) ts)))
    = sum_list (map h ts)"
  using assms(2)
proof (induction ts)
  case Nil
  then show ?case by simp
next
  case (Cons t ts)
  have "(\<Sum>k\<leftarrow>ks. sum_list (map h (filter (\<lambda>t. effective_category t = k) (t # ts))))
      = (\<Sum>k\<leftarrow>ks. (if effective_category t = k then h t else 0)
           + sum_list (map h (filter (\<lambda>t. effective_category t = k) ts)))"
    by (intro arg_cong [where f = sum_list] map_cong) simp_all
  also have "\<dots> = (\<Sum>k\<leftarrow>ks. if effective_category t = k then h t else 0)
      + (\<Sum>k\<leftarrow>ks. sum_list (map h (filter (\<lambda>t. effective_category t = k) ts)))"
    by (rule sum_list_addf)
  also have "\<dots> = h t + sum_list (map h ts)"
    using Cons assms(1) by (simp add: sum_list_delta)
  finally show ?case by simp
qed

lemma abs_sum_filter_le: "abs_sum (map f (filter P xs)) \<le> abs_sum (map f xs)"
  by (induction xs) (auto simp: abs_sum_def intro: add_increasing)

lemma category_total_bound:
  assumes range: "in_range (map amount ts)" and mem: "c \<in> effective_category ` set ts"
  shows "\<exists>v. category_total c ts = Num v
    \<and> \<bar>v - category_sum c ts\<bar>
        \<le> rounding_bound (length ts) (abs_sum (cat_amounts c ts) + least_normal)
    \<and> \<bar>v\<bar> + least_normal
        \<le> (1 + unit_roundoff) ^ length ts * (abs_sum (cat_amounts c ts) + least_normal)"
proof -
  define xs where "xs = cat_amounts c ts"
  define n where "n = length ts"
  define W where "W = abs_sum (map amount ts) + of_nat n * least_normal"
  define V where "V = abs_sum xs + least_normal"
  from mem have "ts \<noteq> []" by auto
  then have n1: "1 \<le> n" by (cases ts) (simp_all add: n_def)
  have len: "length xs \<le> n" by (simp add: xs_def cat_amounts_def n_def)
  have V0: "0 \<le> V" using abs_sum_nonneg [of xs] least_normal_pos by (simp add: V_def)
  have "1 * least_normal \<le> of_nat n * least_normal"
    using n1 least_normal_pos by (intro mult_right_mono) simp_all
  moreover have "abs_sum xs \<le> abs_sum (map amount ts)"
    unfolding xs_def cat_amounts_def by (rule abs_sum_filter_le)
  ultimately have VW: "V \<le> W" by (simp add: V_def W_def)
  have "(1 + unit_roundoff) ^ length xs * V \<le> (1 + unit_roundoff) ^ (2 * n) * W"
    using growth_mono [of "length xs" "2 * n"] len VW V0 growth_ge_1 [of "length xs"]
    by (intro mult_mono) simp_all
  also have "\<dots> \<le> 2 ^ 1023" using in_range_growth [OF range] by (simp add: W_def n_def)
  finally have "(1 + unit_roundoff) ^ length xs
      * (\<bar>0\<bar> + least_normal + abs_sum (map (\<lambda>a. a) xs)) \<le> 2 ^ 1023"
    by (simp add: V_def add.commute)
  from seq_sum [where f = "\<lambda>acc a. js_add (or_zero acc) (Num a)" and val = "\<lambda>a. a", OF _ this]
  obtain v where v: "category_total c ts = Num v"
    and err: "\<bar>v - sum_list xs\<bar> \<le> rounding_bound (length xs) V"
    and mag: "\<bar>v\<bar> + least_normal \<le> (1 + unit_roundoff) ^ length xs * V"
    by (auto simp: or_zero_Num category_total_def xs_def [symmetric] V_def add.commute)
  have "rounding_bound (length xs) V \<le> rounding_bound n V"
    using len V0 by (intro rounding_bound_mono) simp_all
  with err have "\<bar>v - category_sum c ts\<bar> \<le> rounding_bound n V"
    by (simp add: category_sum_def xs_def cat_amounts_def)
  moreover have "(1 + unit_roundoff) ^ length xs * V \<le> (1 + unit_roundoff) ^ n * V"
    using growth_mono [OF len] V0 by (intro mult_right_mono) simp_all
  with mag have "\<bar>v\<bar> + least_normal \<le> (1 + unit_roundoff) ^ n * V" by simp
  ultimately show ?thesis using v by (auto simp: n_def V_def xs_def)
qed

lemma rounding_bound_sum:
  "(\<Sum>x\<leftarrow>xs. rounding_bound k (f x)) = rounding_bound k (\<Sum>x\<leftarrow>xs. f x)"
  by (simp add: rounding_bound_def sum_list_const_mult)

lemma abs_sum_list_diff:
  fixes f g :: "'a \<Rightarrow> rat"
  shows "\<bar>sum_list (map f xs) - sum_list (map g xs)\<bar> \<le> (\<Sum>x\<leftarrow>xs. \<bar>f x - g x\<bar>)"
  by (induction xs) auto

text \<open>
  With rounding: the rows against the exact category sums, the grand total against the
  rows, and the grand total against the sum of all amounts.
\<close>

lemma totals_rounded:
  assumes range: "in_range (map amount txns)"
  shows "\<exists>g. grand (computeCategoryTotals txns) = Num g
    \<and> list_all (\<lambda>r. isFinite (snd r)) (rows (computeCategoryTotals txns))
    \<and> \<bar>g - sum_list (map (\<lambda>r. num_value (snd r)) (rows (computeCategoryTotals txns)))\<bar>
        \<le> rounding_bound (length txns)
             (abs_sum (map (\<lambda>r. num_value (snd r)) (rows (computeCategoryTotals txns)))
              + least_normal)
    \<and> \<bar>sum_list (map (\<lambda>r. num_value (snd r)) (rows (computeCategoryTotals txns)))
         - sum_list (map amount txns)\<bar>
        \<le> rounding_bound (length txns)
             (abs_sum (map amount txns) + of_nat (length txns) * least_normal)
    \<and> \<bar>g - sum_list (map amount txns)\<bar>
        \<le> rounding_bound (2 * length txns)
             (abs_sum (map amount txns) + of_nat (length txns) * least_normal)"
proof (cases "txns = []")
  case True
  then show ?thesis
    by (simp add: computeCategoryTotals_def byCat_of_def sort_rows_def rounding_bound_def
        abs_sum_def)
next
  case False
  define rs where "rs = rows (computeCategoryTotals txns)"
  define n where "n = length txns"
  define m where "m = length rs"
  define c where "c = least_normal"
  define Q where "Q = (1 + unit_roundoff) ^ n"
  define A where "A = abs_sum (map amount txns)"
  define W where "W = A + of_nat n * c"
  define vr where "vr = (\<lambda>r :: string \<times> jsnum. num_value (snd r))"
  define Ar where "Ar = (\<lambda>r :: string \<times> jsnum. abs_sum (cat_amounts (fst r) txns))"
  define Tr where "Tr = (\<lambda>r :: string \<times> jsnum. category_sum (fst r) txns)"
  have c0: "0 < c" by (simp add: c_def least_normal_pos)
  have Q1: "1 \<le> Q" by (simp add: Q_def growth_ge_1)
  have A0: "0 \<le> A" by (simp add: A_def abs_sum_nonneg)
  have W0: "0 \<le> W" using A0 c0 by (simp add: W_def)
  have dist: "distinct (map fst rs)" and keys: "set (map fst rs) = effective_category ` set txns"
    by (simp_all only: rs_def rows_lookup)
  have sub: "effective_category ` set txns \<subseteq> set (map fst rs)"
    by (simp only: keys order_refl)
  have mn: "m \<le> n" by (simp add: m_def n_def rs_def rows_length)
  from False keys have "rs \<noteq> []" by auto
  then have m1: "1 \<le> m" by (cases rs) (simp_all add: m_def)
  have row: "snd r = Num (vr r) \<and> \<bar>vr r - Tr r\<bar> \<le> rounding_bound n (Ar r + c)
      \<and> \<bar>vr r\<bar> + c \<le> Q * (Ar r + c)" if "r \<in> set rs" for r
  proof -
    from that have "snd r = category_total (fst r) txns" by (simp add: rs_def rows_lookup)
    moreover from that keys have "fst r \<in> effective_category ` set txns" by auto
    from category_total_bound [OF range this]
    obtain v where "category_total (fst r) txns = Num v"
      and "\<bar>v - Tr r\<bar> \<le> rounding_bound n (Ar r + c)" and "\<bar>v\<bar> + c \<le> Q * (Ar r + c)"
      by (auto simp: Tr_def Ar_def n_def c_def Q_def)
    ultimately show ?thesis by (simp add: vr_def)
  qed
  have sumA: "(\<Sum>r\<leftarrow>rs. Ar r + c) = A + of_nat m * c"
  proof -
    have "(\<Sum>r\<leftarrow>rs. Ar r) = (\<Sum>k\<leftarrow>map fst rs.
        sum_list (map (\<lambda>t. \<bar>amount t\<bar>) (filter (\<lambda>t. effective_category t = k) txns)))"
      by (simp add: Ar_def abs_sum_def cat_amounts_def o_def)
    also have "\<dots> = sum_list (map (\<lambda>t. \<bar>amount t\<bar>) txns)"
      by (rule sum_over_categories [OF dist sub])
    finally have "(\<Sum>r\<leftarrow>rs. Ar r) = A" by (simp add: A_def abs_sum_def o_def)
    then show ?thesis by (simp add: sum_list_addf sum_list_triv m_def)
  qed
  have sumT: "(\<Sum>r\<leftarrow>rs. Tr r) = sum_list (map amount txns)"
  proof -
    have "(\<Sum>r\<leftarrow>rs. Tr r) = (\<Sum>k\<leftarrow>map fst rs.
        sum_list (map amount (filter (\<lambda>t. effective_category t = k) txns)))"
      by (simp add: Tr_def category_sum_def o_def)
    also have "\<dots> = sum_list (map amount txns)"
      by (rule sum_over_categories [OF dist sub])
    finally show ?thesis .
  qed
  have "of_nat m * c \<le> of_nat n * c" using mn c0 by (intro mult_right_mono) simp_all
  then have AW: "A + of_nat m * c \<le> W" by (simp add: W_def)
  have AW0: "0 \<le> A + of_nat m * c" using A0 c0 by simp
  have "\<bar>sum_list (map vr rs) - sum_list (map Tr rs)\<bar> \<le> (\<Sum>r\<leftarrow>rs. \<bar>vr r - Tr r\<bar>)"
    by (rule abs_sum_list_diff)
  also have "\<dots> \<le> (\<Sum>r\<leftarrow>rs. rounding_bound n (Ar r + c))"
    using row by (intro sum_list_mono) simp
  also have "\<dots> = rounding_bound n (A + of_nat m * c)"
    by (simp only: rounding_bound_sum sumA)
  also have "\<dots> \<le> rounding_bound n W"
    using AW AW0 by (intro rounding_bound_mono) simp_all
  finally have B3: "\<bar>sum_list (map vr rs) - sum_list (map amount txns)\<bar> \<le> rounding_bound n W"
    by (simp only: sumT)
  have "(\<Sum>r\<leftarrow>rs. \<bar>vr r\<bar> + c) \<le> (\<Sum>r\<leftarrow>rs. Q * (Ar r + c))"
    using row by (intro sum_list_mono) simp
  also have "\<dots> = Q * (A + of_nat m * c)"
    by (simp only: sum_list_const_mult sumA)
  also have "\<dots> \<le> Q * W" using AW Q1 by (intro mult_left_mono) simp_all
  finally have "abs_sum (map vr rs) + of_nat m * c \<le> Q * W"
    by (simp add: sum_list_addf sum_list_triv m_def abs_sum_def o_def)
  moreover have "1 * c \<le> of_nat m * c" using m1 c0 by (intro mult_right_mono) simp_all
  ultimately have mag: "abs_sum (map vr rs) + c \<le> Q * W" by simp
  have V0: "0 \<le> abs_sum (map vr rs) + c" using abs_sum_nonneg [of "map vr rs"] c0 by simp
  have "(1 + unit_roundoff) ^ m * (abs_sum (map vr rs) + c) \<le> Q * (Q * W)"
    unfolding Q_def using growth_mono [OF mn] growth_ge_1 [of m] mag V0
    by (intro mult_mono) (simp_all add: Q_def)
  also have "\<dots> = (1 + unit_roundoff) ^ (2 * n) * W"
    by (simp add: Q_def power2_eq_square power_mult mult.assoc mult.commute [of 2 n])
  also have "\<dots> \<le> 2 ^ 1023"
    using in_range_growth [OF range] by (simp add: W_def A_def n_def c_def)
  finally have "(1 + unit_roundoff) ^ length rs
      * (\<bar>0\<bar> + least_normal + abs_sum (map vr rs)) \<le> 2 ^ 1023"
    by (simp add: m_def c_def add.commute)
  from seq_sum [where f = "\<lambda>acc r. js_add acc (snd r)" and val = vr, OF _ this]
  obtain g where g: "foldl (\<lambda>acc r. js_add acc (snd r)) (Num 0) rs = Num g"
    and err: "\<bar>g - sum_list (map vr rs)\<bar> \<le> rounding_bound m (abs_sum (map vr rs) + c)"
    using row by (auto simp: m_def c_def add.commute)
  have B1: "\<bar>g - sum_list (map vr rs)\<bar> \<le> rounding_bound n (abs_sum (map vr rs) + c)"
    using err rounding_bound_mono [OF mn V0 order_refl] by simp
  have "rounding_bound n (abs_sum (map vr rs) + c) \<le> rounding_bound n (Q * W)"
    using mag V0 by (intro rounding_bound_mono) simp_all
  with B1 have "\<bar>g - sum_list (map vr rs)\<bar> \<le> rounding_bound n (Q * W)" by simp
  with B3 have "\<bar>g - sum_list (map amount txns)\<bar> \<le> rounding_bound n (Q * W) + rounding_bound n W"
    by linarith
  also have "\<dots> = rounding_bound (2 * n) W"
    by (simp add: rounding_bound_def Q_def power_mult power2_eq_square mult.commute [of 2 n]
        algebra_simps)
  finally have B2: "\<bar>g - sum_list (map amount txns)\<bar> \<le> rounding_bound (2 * n) W" .
  have G: "grand (computeCategoryTotals txns) = Num g"
    using g by (simp add: computeCategoryTotals_def Let_def rs_def)
  have fin: "list_all (\<lambda>r. isFinite (snd r)) rs"
    using row by (auto simp: list_all_iff)
  from G fin B1 B3 B2 show ?thesis
    by (auto simp: rs_def vr_def n_def W_def A_def c_def)
qed

text \<open>
  A finite percentage is the exact quotient times 100 after two roundings, one of the
  division and one of the multiplication.
\<close>

lemma js_mul_Num_finite:
  assumes "js_mul a (Num b) = Num p"
  obtains q where "a = Num q" and "to_double (q * b) = Num p"
  using assms by (cases a) (auto simp: signed_infinity_def split: if_splits)

lemma pct_error:
  assumes g: "g \<noteq> 0" and p: "pct (Num g) (Num v) = Num p"
  shows "\<bar>p - v / g * 100\<bar>
    \<le> rounding_bound 2 \<bar>v / g * 100\<bar> + 102 * (unit_roundoff * least_normal)"
proof -
  define u where "u = unit_roundoff"
  define c where "c = least_normal"
  define x where "x = v / g"
  have u0: "0 \<le> u" and u_small: "u \<le> 1 / 100" and c0: "0 < c"
    by (simp_all add: u_def c_def unit_roundoff_def least_normal_def)
  from g p have "js_mul (to_double x) (Num 100) = Num p"
    by (simp add: pct_def truthy_def x_def)
  then obtain q where q: "to_double x = Num q" and p': "to_double (q * 100) = Num p"
    by (rule js_mul_Num_finite)
  from to_double_error [OF q] have e1: "\<bar>q - x\<bar> \<le> u * \<bar>x\<bar> + u * c"
    by (simp add: u_def c_def)
  from to_double_error [OF p'] have e2: "\<bar>p - q * 100\<bar> \<le> 100 * (u * \<bar>q\<bar>) + u * c"
    by (simp add: u_def c_def abs_mult)
  from e1 have "\<bar>q\<bar> \<le> \<bar>x\<bar> + (u * \<bar>x\<bar> + u * c)" by linarith
  then have "u * \<bar>q\<bar> \<le> u * (\<bar>x\<bar> + (u * \<bar>x\<bar> + u * c))"
    using u0 by (rule mult_left_mono)
  then have h2: "u * \<bar>q\<bar> \<le> u * \<bar>x\<bar> + u * (u * \<bar>x\<bar>) + u * (u * c)"
    by (simp add: algebra_simps)
  have "u * (u * c) \<le> 1 / 100 * (u * c)"
    using u_small u0 c0 by (intro mult_right_mono) simp_all
  then have h4: "100 * (u * (u * c)) \<le> u * c" by simp
  have "\<bar>q * 100 - x * 100\<bar> = \<bar>(q - x) * 100\<bar>" by (simp only: left_diff_distrib)
  also have "\<dots> = 100 * \<bar>q - x\<bar>" by (simp only: abs_mult abs_numeral mult.commute)
  finally have "\<bar>p - x * 100\<bar> \<le> \<bar>p - q * 100\<bar> + 100 * \<bar>q - x\<bar>" by linarith
  with e1 e2 h2 h4
  have "\<bar>p - x * 100\<bar> \<le> 200 * (u * \<bar>x\<bar>) + 100 * (u * (u * \<bar>x\<bar>)) + 102 * (u * c)"
    by linarith
  moreover have "rounding_bound 2 \<bar>x * 100\<bar> = 200 * (u * \<bar>x\<bar>) + 100 * (u * (u * \<bar>x\<bar>))"
    by (simp add: rounding_bound_def u_def power2_eq_square abs_mult algebra_simps)
  ultimately show ?thesis by (simp add: x_def u_def c_def)
qed

lemma pct_sum:
  assumes G: "grand T = Num g" and g: "g \<noteq> 0"
    and fin: "list_all (\<lambda>r. isFinite (snd r)) (rows T)"
    and pfin: "list_all isFinite (percentages T)"
  shows "\<bar>sum_list (map num_value (percentages T)) - sum_list (row_values T) / g * 100\<bar>
    \<le> rounding_bound 2 (abs_sum (row_values T) / \<bar>g\<bar> * 100)
      + 102 * of_nat (length (rows T)) * (unit_roundoff * least_normal)"
proof -
  define vr where "vr = (\<lambda>r :: string \<times> jsnum. num_value (snd r))"
  define pr where "pr = (\<lambda>r :: string \<times> jsnum. num_value (pct (Num g) (snd r)))"
  define t where "t = 102 * (unit_roundoff * least_normal)"
  have row: "\<bar>pr r - vr r / g * 100\<bar> \<le> rounding_bound 2 (\<bar>vr r\<bar> / \<bar>g\<bar> * 100) + t"
    if "r \<in> set (rows T)" for r
  proof -
    from that fin obtain v where v: "snd r = Num v"
      by (cases "snd r") (auto simp: list_all_iff)
    from that pfin G obtain p where p: "pct (Num g) (snd r) = Num p"
      by (cases "pct (Num g) (snd r)") (auto simp: list_all_iff percentages_def)
    note p' = p [unfolded v]
    from pct_error [OF g p'] show ?thesis
      by (simp add: pr_def vr_def v p' t_def abs_mult abs_divide)
  qed
  have "\<bar>sum_list (map pr (rows T)) - sum_list (map (\<lambda>r. vr r / g * 100) (rows T))\<bar>
      \<le> (\<Sum>r\<leftarrow>rows T. \<bar>pr r - vr r / g * 100\<bar>)"
    by (rule abs_sum_list_diff)
  also have "\<dots> \<le> (\<Sum>r\<leftarrow>rows T. rounding_bound 2 (\<bar>vr r\<bar> / \<bar>g\<bar> * 100) + t)"
    using row by (intro sum_list_mono) simp
  also have "\<dots> = rounding_bound 2 (\<Sum>r\<leftarrow>rows T. \<bar>vr r\<bar> / \<bar>g\<bar> * 100)
      + of_nat (length (rows T)) * t"
    by (simp add: sum_list_addf rounding_bound_sum sum_list_triv)
  finally have "\<bar>sum_list (map pr (rows T)) - sum_list (map vr (rows T)) / g * 100\<bar>
      \<le> rounding_bound 2 (sum_list (map (\<lambda>r. \<bar>vr r\<bar>) (rows T)) / \<bar>g\<bar> * 100)
        + of_nat (length (rows T)) * t"
    by (simp only: sum_list_scaled)
  then show ?thesis
    by (simp add: percentages_def row_values_def G pr_def vr_def t_def abs_sum_def o_def
        mult.assoc mult.left_commute)
qed

text \<open>The percentages of all rows together.\<close>

lemma percent_sum_rounded:
  assumes range: "in_range (map amount txns)"
    and nz: "grand (computeCategoryTotals txns) \<noteq> Num 0"
    and pfin: "list_all isFinite (percentages (computeCategoryTotals txns))"
  shows "\<bar>sum_list (map num_value (percentages (computeCategoryTotals txns))) - 100\<bar>
    \<le> rounding_bound 2
         (abs_sum (row_values (computeCategoryTotals txns))
            / \<bar>num_value (grand (computeCategoryTotals txns))\<bar> * 100)
      + rounding_bound (length txns)
          (abs_sum (row_values (computeCategoryTotals txns)) + least_normal)
          / \<bar>num_value (grand (computeCategoryTotals txns))\<bar> * 100
      + 102 * of_nat (length (rows (computeCategoryTotals txns)))
          * (unit_roundoff * least_normal)"
proof -
  define T where "T = computeCategoryTotals txns"
  define S where "S = sum_list (row_values T)"
  from totals_rounded [OF range] obtain g where G: "grand T = Num g"
    and fin: "list_all (\<lambda>r. isFinite (snd r)) (rows T)"
    and B1: "\<bar>g - S\<bar> \<le> rounding_bound (length txns) (abs_sum (row_values T) + least_normal)"
    by (auto simp: T_def S_def row_values_def)
  from nz G have g: "g \<noteq> 0" by (simp add: T_def)
  from pfin have pfin': "list_all isFinite (percentages T)" by (simp add: T_def)
  have "S / g * 100 - 100 = (S - g) / g * 100" using g by (simp add: field_simps)
  then have "\<bar>S / g * 100 - 100\<bar> = \<bar>(S - g) / g * 100\<bar>" by (simp only:)
  also have "\<dots> = \<bar>S - g\<bar> / \<bar>g\<bar> * 100" by (simp only: abs_mult abs_divide abs_numeral)
  also have "\<dots> = \<bar>g - S\<bar> / \<bar>g\<bar> * 100" by (simp only: abs_minus_commute)
  also have "\<dots> \<le> rounding_bound (length txns) (abs_sum (row_values T) + least_normal)
      / \<bar>g\<bar> * 100"
    using B1 by (intro mult_right_mono divide_right_mono) simp_all
  finally have "\<bar>S / g * 100 - 100\<bar>
      \<le> rounding_bound (length txns) (abs_sum (row_values T) + least_normal) / \<bar>g\<bar> * 100" .
  with pct_sum [OF G g fin pfin'] show ?thesis
    unfolding T_def [symmetric] S_def [symmetric] G by simp
qed

lemma percent_sum_exact:
  assumes exact: "exact_sums (map amount txns)"
    and nz: "sum_list (map amount txns) \<noteq> 0"
    and pfin: "list_all isFinite (percentages (computeCategoryTotals txns))"
  shows "\<bar>sum_list (map num_value (percentages (computeCategoryTotals txns))) - 100\<bar>
    \<le> rounding_bound 2
         (abs_sum (row_values (computeCategoryTotals txns))
            / \<bar>sum_list (map amount txns)\<bar> * 100)
      + 102 * of_nat (length (rows (computeCategoryTotals txns)))
          * (unit_roundoff * least_normal)"
proof -
  define T where "T = computeCategoryTotals txns"
  define g where "g = sum_list (map amount txns)"
  from totals_exact [OF exact] have G: "grand T = Num g"
    and fin: "list_all (\<lambda>r. isFinite (snd r)) (rows T)"
    and S: "sum_list (row_values T) = g"
    by (simp_all add: T_def g_def row_values_def)
  from nz have g: "g \<noteq> 0" by (simp add: g_def)
  from pfin have pfin': "list_all isFinite (percentages T)" by (simp add: T_def)
  from pct_sum [OF G g fin pfin'] show ?thesis
    unfolding T_def [symmetric] g_def [symmetric] S using g by simp
qed

text \<open>
  Claim C8, amended. For every input the grand total is the row totals added in row order
  in double arithmetic, and every percentage is 0 when the grand total is 0. Write
  \<open>n\<close> for the number of transactions, \<open>m\<close> for the number of rows and \<open>B k w\<close> for
  \<open>rounding_bound k w\<close>, that is \<open>((1 + 2^-53)^k - 1) * w\<close>.

  For at most \<open>2^51\<close> transactions whose magnitudes add up to at most \<open>2^1021\<close>, the grand
  total and every row total are finite, and the sum of the row totals, the grand total and
  the sum of all input amounts agree up to rounding: the grand total is within
  \<open>B n (\<Sum>\<bar>row total\<bar> + 2^-1022)\<close> of the sum of the row totals, that sum is within
  \<open>B n (\<Sum>\<bar>amount\<bar> + n * 2^-1022)\<close> of the sum of the amounts, and the grand total is within
  \<open>B (2 * n) (\<Sum>\<bar>amount\<bar> + n * 2^-1022)\<close> of the sum of the amounts. When moreover the grand
  total is not 0 and the percentages are finite, the percentages
  \<^verbatim>\<open>total / grand * 100\<close> add up to 100 within
  \<open>B 2 (\<Sum>\<bar>row total\<bar> / \<bar>grand\<bar> * 100) + B n (\<Sum>\<bar>row total\<bar> + 2^-1022) / \<bar>grand\<bar> * 100
  + 102 * m * 2^-1075\<close>.

  When every sum of some of the input amounts is a double, so that no addition rounds, every
  row total is finite, the row totals add up to the sum of all input amounts and the grand
  total is that sum; when it is not 0 and the percentages are finite, they add up to 100
  within \<open>B 2 (\<Sum>\<bar>row total\<bar> / \<bar>grand\<bar> * 100) + 102 * m * 2^-1075\<close>.
\<close>

theorem C8_totals_up_to_rounding:
  "grand (computeCategoryTotals txns)
     = foldl js_add (Num 0) (map snd (rows (computeCategoryTotals txns)))
   \<and> (grand (computeCategoryTotals txns) = Num 0 \<longrightarrow>
        list_all (\<lambda>p. p = Num 0) (percentages (computeCategoryTotals txns)))
   \<and> (in_range (map amount txns) \<longrightarrow>
        isFinite (grand (computeCategoryTotals txns))
        \<and> list_all (\<lambda>r. isFinite (snd r)) (rows (computeCategoryTotals txns))
        \<and> \<bar>num_value (grand (computeCategoryTotals txns))
             - sum_list (row_values (computeCategoryTotals txns))\<bar>
            \<le> rounding_bound (length txns)
                 (abs_sum (row_values (computeCategoryTotals txns)) + least_normal)
        \<and> \<bar>sum_list (row_values (computeCategoryTotals txns)) - sum_list (map amount txns)\<bar>
            \<le> rounding_bound (length txns)
                 (abs_sum (map amount txns) + of_nat (length txns) * least_normal)
        \<and> \<bar>num_value (grand (computeCategoryTotals txns)) - sum_list (map amount txns)\<bar>
            \<le> rounding_bound (2 * length txns)
                 (abs_sum (map amount txns) + of_nat (length txns) * least_normal)
        \<and> (grand (computeCategoryTotals txns) \<noteq> Num 0
             \<and> list_all isFinite (percentages (computeCategoryTotals txns)) \<longrightarrow>
             \<bar>sum_list (map num_value (percentages (computeCategoryTotals txns))) - 100\<bar>
               \<le> rounding_bound 2
                    (abs_sum (row_values (computeCategoryTotals txns))
                       / \<bar>num_value (grand (computeCategoryTotals txns))\<bar> * 100)
                 + rounding_bound (length txns)
                     (abs_sum (row_values (computeCategoryTotals txns)) + least_normal)
                     / \<bar>num_value (grand (computeCategoryTotals txns))\<bar> * 100
                 + 102 * of_nat (length (rows (computeCategoryTotals txns)))
                     * (unit_roundoff * least_normal)))
   \<and> (exact_sums (map amount txns) \<longrightarrow>
        list_all (\<lambda>r. isFinite (snd r)) (rows (computeCategoryTotals txns))
        \<and> sum_list (row_values (computeCategoryTotals txns)) = sum_list (map amount txns)
        \<and> grand (computeCategoryTotals txns) = Num (sum_list (map amount txns))
        \<and> (sum_list (map amount txns) \<noteq> 0
             \<and> list_all isFinite (percentages (computeCategoryTotals txns)) \<longrightarrow>
             \<bar>sum_list (map num_value (percentages (computeCategoryTotals txns))) - 100\<bar>
               \<le> rounding_bound 2
                    (abs_sum (row_values (computeCategoryTotals txns))
                       / \<bar>sum_list (map amount txns)\<bar> * 100)
                 + 102 * of_nat (length (rows (computeCategoryTotals txns)))
                     * (unit_roundoff * least_normal)))"
proof -
  define T where "T = computeCategoryTotals txns"
  have fold: "grand T = foldl js_add (Num 0) (map snd (rows T))"
    by (simp add: T_def computeCategoryTotals_def Let_def foldl_map)
  have zero: "list_all (\<lambda>p. p = Num 0) (percentages T)" if "grand T = Num 0"
    using that by (simp add: percentages_def pct_zero list_all_iff)
  have rounded: "isFinite (grand T) \<and> list_all (\<lambda>r. isFinite (snd r)) (rows T)
      \<and> \<bar>num_value (grand T) - sum_list (row_values T)\<bar>
          \<le> rounding_bound (length txns) (abs_sum (row_values T) + least_normal)
      \<and> \<bar>sum_list (row_values T) - sum_list (map amount txns)\<bar>
          \<le> rounding_bound (length txns)
               (abs_sum (map amount txns) + of_nat (length txns) * least_normal)
      \<and> \<bar>num_value (grand T) - sum_list (map amount txns)\<bar>
          \<le> rounding_bound (2 * length txns)
               (abs_sum (map amount txns) + of_nat (length txns) * least_normal)"
    if "in_range (map amount txns)"
    using totals_rounded [OF that] by (auto simp: T_def row_values_def)
  have exact: "list_all (\<lambda>r. isFinite (snd r)) (rows T)
      \<and> sum_list (row_values T) = sum_list (map amount txns)
      \<and> grand T = Num (sum_list (map amount txns))"
    if "exact_sums (map amount txns)"
    using totals_exact [OF that] by (simp add: T_def row_values_def)
  show ?thesis
    unfolding T_def [symmetric]
    using fold zero rounded exact percent_sum_rounded [of txns] percent_sum_exact [of txns]
    unfolding T_def [symmetric]
    by blast
qed

text \<open>The examples, evaluated.\<close>

lemma ex_cats: "effective_category (ex_cat_txn ''A'' a) = ''A''" "effective_category (ex_cat_txn ''B'' a) = ''B''"
  "effective_category (ex_cat_txn ''C'' a) = ''C''"
  by (simp_all add: effective_category_def ex_cat_txn_def toUpperCase_def char_upper_def lower_letters_def upper_letters_def)

lemma ex_amount: "amount (ex_cat_txn c a) = a" by (simp add: ex_cat_txn_def)

lemma ex_thirds_totals:
  "computeCategoryTotals ex_thirds
     = \<lparr>rows = [(''A'', Num 1), (''B'', Num 1), (''C'', Num 1)], grand = Num 3\<rparr>"
  by (simp add: computeCategoryTotals_def byCat_of_def ex_thirds_def ex_cats ex_amount or_zero_Num
      sort_rows_def js_sub_def js_positive_def Let_def dbl_eval)

lemma pct_third: "pct (Num 3) (Num 1) = Num (2345624805922133 / 70368744177664)"
  by (simp add: pct_def truthy_def dbl_eval)

lemma ex_thirds_exact: "exact_sums (map amount ex_thirds)"
  by (simp add: exact_sums_def ex_thirds_def ex_amount representable_def dbl_eval)

lemma ex_thirds_range: "in_range (map amount ex_thirds)"
  by (simp add: in_range_def ex_thirds_def ex_amount abs_sum_def)

lemma ex_cancel_totals:
  "computeCategoryTotals ex_cancel
     = \<lparr>rows = [(''A'', Num 10000000000000000), (''B'', Num 3),
                (''C'', Num (- 10000000000000000))], grand = Num 4\<rparr>"
  by (simp add: computeCategoryTotals_def byCat_of_def ex_cancel_def ex_cats ex_amount or_zero_Num
      sort_rows_def js_sub_def js_positive_def Let_def dbl_eval)

lemma ex_cancel_percentages:
  "pct (Num 4) (Num 10000000000000000) = Num 250000000000000000"
  "pct (Num 4) (Num 3) = Num 75"
  "pct (Num 4) (Num (- 10000000000000000)) = Num (- 250000000000000000)"
  by (simp_all add: pct_def truthy_def dbl_eval)

lemma ex_cents_totals:
  "computeCategoryTotals ex_cents
     = \<lparr>rows = [(''A'', Num (1351079888211149 / 4503599627370496))],
        grand = Num (1351079888211149 / 4503599627370496)\<rparr>"
  by (simp add: computeCategoryTotals_def byCat_of_def ex_cents_def ex_cats ex_amount or_zero_Num
      sort_rows_def js_sub_def js_positive_def Let_def dbl_eval)

lemma ex_cents_inexact: "\<not> exact_sums (map amount ex_cents)"
  by (simp add: exact_sums_def ex_cents_def ex_amount representable_def dbl_eval)

lemma ex_zero_totals:
  "computeCategoryTotals ex_zero
     = \<lparr>rows = [(''A'', Num 5), (''B'', Num (- 5))], grand = Num 0\<rparr>"
  by (simp add: computeCategoryTotals_def byCat_of_def ex_zero_def ex_cats ex_amount or_zero_Num
      sort_rows_def js_sub_def js_positive_def Let_def dbl_eval)

lemma ex_thirds_percentages:
  "percentages (computeCategoryTotals ex_thirds)
     = [Num (2345624805922133 / 70368744177664), Num (2345624805922133 / 70368744177664),
        Num (2345624805922133 / 70368744177664)]"
  by (simp add: percentages_def ex_thirds_totals pct_third)

theorem C8_totals_up_to_rounding_witness:
  "in_range (map amount ex_thirds) \<and> exact_sums (map amount ex_thirds)
   \<and> rows (computeCategoryTotals ex_thirds) = [(''A'', Num 1), (''B'', Num 1), (''C'', Num 1)]
   \<and> grand (computeCategoryTotals ex_thirds) = Num 3
   \<and> sum_list (map amount ex_thirds) = 3
   \<and> percentages (computeCategoryTotals ex_thirds)
       = [Num (2345624805922133 / 70368744177664), Num (2345624805922133 / 70368744177664),
          Num (2345624805922133 / 70368744177664)]
   \<and> sum_list (map num_value (percentages (computeCategoryTotals ex_thirds)))
       = 100 - 1 / 70368744177664
   \<and> 1 / 70368744177664
       \<le> rounding_bound 2 100 + 306 * (unit_roundoff * least_normal)
   \<and> 1 / 70368744177664
       \<le> rounding_bound 2 100 + rounding_bound 3 (3 + least_normal) / 3 * 100
         + 306 * (unit_roundoff * least_normal)
   \<and> in_range (map amount ex_cancel)
   \<and> 1 \<le> rounding_bound 6 (20000000000000003 + 3 * least_normal)
   \<and> in_range (map amount ex_cents) \<and> \<not> exact_sums (map amount ex_cents)
   \<and> grand (computeCategoryTotals ex_cents) = Num (1351079888211149 / 4503599627370496)
   \<and> sum_list (map amount ex_cents) = 10808639105689191 / 36028797018963968
   \<and> 1 / 36028797018963968
       \<le> rounding_bound 4 (10808639105689191 / 36028797018963968 + 2 * least_normal)
   \<and> grand (computeCategoryTotals ex_zero) = Num 0
   \<and> percentages (computeCategoryTotals ex_zero) = [Num 0, Num 0]"
proof -
  note thirds = C8_totals_up_to_rounding [of ex_thirds]
  have total: "sum_list (map amount ex_thirds) = 3" by (simp add: ex_thirds_def ex_amount)
  have len: "length ex_thirds = 3" by (simp add: ex_thirds_def)
  have nz: "grand (computeCategoryTotals ex_thirds) \<noteq> Num 0" by (simp add: ex_thirds_totals)
  have nz': "sum_list (map amount ex_thirds) \<noteq> 0" by (simp add: total)
  have fin: "list_all isFinite (percentages (computeCategoryTotals ex_thirds))"
    by (simp add: ex_thirds_percentages)
  have vals: "row_values (computeCategoryTotals ex_thirds) = [1, 1, 1]"
    by (simp add: row_values_def ex_thirds_totals)
  have sum: "sum_list (map num_value (percentages (computeCategoryTotals ex_thirds)))
      = 100 - 1 / 70368744177664"
    by (simp add: ex_thirds_percentages)
  from thirds ex_thirds_exact nz' fin
  have "\<bar>sum_list (map num_value (percentages (computeCategoryTotals ex_thirds))) - 100\<bar>
      \<le> rounding_bound 2
           (abs_sum (row_values (computeCategoryTotals ex_thirds))
              / \<bar>sum_list (map amount ex_thirds)\<bar> * 100)
        + 102 * of_nat (length (rows (computeCategoryTotals ex_thirds)))
            * (unit_roundoff * least_normal)"
    by blast
  then have exact: "1 / 70368744177664
      \<le> rounding_bound 2 100 + 306 * (unit_roundoff * least_normal)"
    unfolding sum total vals by (simp add: abs_sum_def ex_thirds_totals)
  from thirds ex_thirds_range nz fin
  have "\<bar>sum_list (map num_value (percentages (computeCategoryTotals ex_thirds))) - 100\<bar>
      \<le> rounding_bound 2
           (abs_sum (row_values (computeCategoryTotals ex_thirds))
              / \<bar>num_value (grand (computeCategoryTotals ex_thirds))\<bar> * 100)
        + rounding_bound (length ex_thirds)
            (abs_sum (row_values (computeCategoryTotals ex_thirds)) + least_normal)
            / \<bar>num_value (grand (computeCategoryTotals ex_thirds))\<bar> * 100
        + 102 * of_nat (length (rows (computeCategoryTotals ex_thirds)))
            * (unit_roundoff * least_normal)"
    by blast
  then have rounded: "1 / 70368744177664
      \<le> rounding_bound 2 100 + rounding_bound 3 (3 + least_normal) / 3 * 100
        + 306 * (unit_roundoff * least_normal)"
    unfolding sum vals len by (simp add: abs_sum_def ex_thirds_totals)
  have cancel_range: "in_range (map amount ex_cancel)"
    by (simp add: in_range_def ex_cancel_def ex_amount abs_sum_def)
  have cancel_len: "length ex_cancel = 3" by (simp add: ex_cancel_def)
  have cancel_abs: "abs_sum (map amount ex_cancel) = 20000000000000003"
    by (simp add: ex_cancel_def ex_amount abs_sum_def)
  have cancel_sum: "sum_list (map amount ex_cancel) = 3"
    by (simp add: ex_cancel_def ex_amount)
  from C8_totals_up_to_rounding [of ex_cancel] cancel_range
  have "\<bar>num_value (grand (computeCategoryTotals ex_cancel)) - sum_list (map amount ex_cancel)\<bar>
      \<le> rounding_bound (2 * length ex_cancel)
           (abs_sum (map amount ex_cancel) + of_nat (length ex_cancel) * least_normal)"
    by blast
  then have cancel: "1 \<le> rounding_bound 6 (20000000000000003 + 3 * least_normal)"
    unfolding cancel_len cancel_abs cancel_sum by (simp add: ex_cancel_totals)
  have cents_range: "in_range (map amount ex_cents)"
    by (simp add: in_range_def ex_cents_def ex_amount abs_sum_def)
  have cents_len: "length ex_cents = 2" by (simp add: ex_cents_def)
  have cents_abs: "abs_sum (map amount ex_cents) = 10808639105689191 / 36028797018963968"
    by (simp add: ex_cents_def ex_amount abs_sum_def)
  have cents_sum: "sum_list (map amount ex_cents) = 10808639105689191 / 36028797018963968"
    by (simp add: ex_cents_def ex_amount)
  from C8_totals_up_to_rounding [of ex_cents] cents_range
  have "\<bar>num_value (grand (computeCategoryTotals ex_cents)) - sum_list (map amount ex_cents)\<bar>
      \<le> rounding_bound (2 * length ex_cents)
           (abs_sum (map amount ex_cents) + of_nat (length ex_cents) * least_normal)"
    by blast
  then have cents: "1 / 36028797018963968
      \<le> rounding_bound 4 (10808639105689191 / 36028797018963968 + 2 * least_normal)"
    unfolding cents_len cents_abs cents_sum by (simp add: ex_cents_totals)
  from C8_totals_up_to_rounding [of ex_zero]
  have "grand (computeCategoryTotals ex_zero) = Num 0 \<longrightarrow>
      list_all (\<lambda>p. p = Num 0) (percentages (computeCategoryTotals ex_zero))"
    by blast
  then have zero: "percentages (computeCategoryTotals ex_zero) = [Num 0, Num 0]"
    by (simp add: ex_zero_totals percentages_def)
  show ?thesis
    using ex_thirds_range ex_thirds_exact total ex_thirds_percentages sum exact rounded zero
      cancel_range cancel cents_range ex_cents_inexact cents_sum cents
    by (simp add: ex_thirds_totals ex_zero_totals ex_cents_totals)
qed

lemma big_double: "to_double (2 ^ 1023) = Num (2 ^ 1023)"
  by (simp add: dbl_eval)

lemma ex_overflow_totals:
  "computeCategoryTotals ex_overflow = \<lparr>rows = [(''A'', PosInfinity)], grand = PosInfinity\<rparr>"
proof -
  have first: "js_add (Num 0) (Num (2 ^ 1023)) = Num (2 ^ 1023)"
    using big_double by simp
  have "to_double (2 ^ 1023 + 2 ^ 1023) = PosInfinity"
    by (rule to_double_overflow) simp
  then have second: "js_add (or_zero (Num (2 ^ 1023))) (Num (2 ^ 1023)) = PosInfinity"
    by (simp only: or_zero_Num js_add.simps)
  have "byCat_of ex_overflow = [(''A'', PosInfinity)]"
    unfolding byCat_of_def ex_overflow_def
    by (simp only: foldl.simps ex_cats ex_amount byCat_add.simps first second if_True simp_thms)
  then show ?thesis
    by (simp add: computeCategoryTotals_def Let_def sort_rows_def)
qed

text \<open>
  Claim C8, as the spec states it, for every input. For the amounts \<open>10^16\<close>, 3 and
  \<open>-10^16\<close> in the categories A, B and C the rows are \<open>10^16\<close>, 3 and \<open>-10^16\<close>, which add up
  to 3 as the amounts do; the grand total, added in doubles, is 4, and the percentages
  \<open>2.5 * 10^17\<close>, 75 and \<open>-2.5 * 10^17\<close> add up to 75. For the amount \<open>2^1023\<close> twice in one
  category the row total and the grand total are \<open>Infinity\<close> and the percentage is NaN.
\<close>

theorem C8_rounding_counterexample:
  "rows (computeCategoryTotals ex_cancel)
     = [(''A'', Num 10000000000000000), (''B'', Num 3), (''C'', Num (- 10000000000000000))]
   \<and> sum_list (map amount ex_cancel) = 3
   \<and> sum_list (row_values (computeCategoryTotals ex_cancel)) = 3
   \<and> grand (computeCategoryTotals ex_cancel) = Num 4
   \<and> grand (computeCategoryTotals ex_cancel) \<noteq> Num (sum_list (map amount ex_cancel))
   \<and> percentages (computeCategoryTotals ex_cancel)
       = [Num 250000000000000000, Num 75, Num (- 250000000000000000)]
   \<and> sum_list (map num_value (percentages (computeCategoryTotals ex_cancel))) = 75
   \<and> rows (computeCategoryTotals ex_overflow) = [(''A'', PosInfinity)]
   \<and> grand (computeCategoryTotals ex_overflow) = PosInfinity
   \<and> percentages (computeCategoryTotals ex_overflow) = [NaN]"
proof -
  have "sum_list (map amount ex_cancel) = 3" by (simp add: ex_cancel_def ex_amount)
  moreover have "percentages (computeCategoryTotals ex_overflow) = [NaN]"
    by (simp add: percentages_def ex_overflow_totals pct_def truthy_def)
  ultimately show ?thesis
    by (simp add: ex_cancel_totals ex_overflow_totals percentages_def row_values_def
        ex_cancel_percentages)
qed

end
